theory Spec2Isabelle
  imports Main "HOL-Library.AList" "HOL-Library.Multiset"
begin

section \<open>Fill or Bust: the scorer\<close>

text \<open>
  Python's \<open>Counter\<close> is a dictionary from die faces to counts that keeps the order in which
  keys were inserted. It is modelled as an association list: \<open>AList.update\<close> overwrites the value
  of a key that is present and appends a key that is new, as a Python dictionary does.
  Die faces and counts are Python integers, so both are \<open>int\<close>.
\<close>

type_synonym counter = "(int \<times> int) list"

definition counter_get :: "counter \<Rightarrow> int \<Rightarrow> int \<Rightarrow> int" where
  \<comment> \<open>\<open>c.get(k, d)\<close>\<close>
  "counter_get c k d = (case map_of c k of None \<Rightarrow> d | Some v \<Rightarrow> v)"

definition counter_set :: "counter \<Rightarrow> int \<Rightarrow> int \<Rightarrow> counter" where
  \<comment> \<open>\<open>c[k] = v\<close>\<close>
  "counter_set c k v = AList.update k v c"

definition counter_add :: "counter \<Rightarrow> int \<Rightarrow> int \<Rightarrow> counter" where
  \<comment> \<open>\<open>c[k] += n\<close>; reading a missing key of a \<open>Counter\<close> gives 0\<close>
  "counter_add c k n = counter_set c k (counter_get c k 0 + n)"

definition Counter :: "int list \<Rightarrow> counter" where
  \<comment> \<open>\<open>Counter(dice)\<close>: one increment per element, from left to right\<close>
  "Counter dice = fold (\<lambda>d c. counter_add c d 1) dice []"

definition counter_total :: "counter \<Rightarrow> int" where
  \<comment> \<open>\<open>sum(c.values())\<close>\<close>
  "counter_total c = sum_list (map snd c)"

text \<open>
  The body of the loop \<open>for face in range(1, 7)\<close> of \<open>score_dice\<close>, on the triple
  \<open>(cnt, score, used)\<close> of the variables it updates.
\<close>

definition three_of_a_kind :: "int \<Rightarrow> counter \<times> int \<times> counter \<Rightarrow> counter \<times> int \<times> counter" where
  "three_of_a_kind face st =
     (case st of (cnt, score, used) \<Rightarrow>
        let c = counter_get cnt face 0 in
        if c \<ge> 3 then
          let base = (if face = 1 then 1000 else face * 100) in
          (counter_set cnt face (c - 3), score + base, counter_add used face 3)
        else (cnt, score, used))"

definition singles :: "int \<Rightarrow> int \<Rightarrow> counter \<times> int \<times> counter \<Rightarrow> counter \<times> int \<times> counter" where
  \<comment> \<open>\<open>if cnt.get(face, 0) > 0: score += cnt[face] * value; used[face] += cnt[face]\<close>\<close>
  "singles face val st =
     (case st of (cnt, score, used) \<Rightarrow>
        if counter_get cnt face 0 > 0 then
          (cnt, score + counter_get cnt face 0 * val, counter_add used face (counter_get cnt face 0))
        else (cnt, score, used))"

definition score_dice :: "int list \<Rightarrow> int \<times> counter" where
  "score_dice dice =
     (case singles 5 50 (singles 1 100 (fold three_of_a_kind [1, 2, 3, 4, 5, 6] (Counter dice, 0, []))) of
        (cnt, score, used) \<Rightarrow> (score, used))"

definition is_scoring_roll :: "int list \<Rightarrow> bool" where
  "is_scoring_roll dice = (fst (score_dice dice) > 0)"

subsection \<open>The scoring rule in the words of the specification\<close>

text \<open>
  What one face contributes when it occurs \<open>c\<close> times: a face with at least three occurrences
  gives 1000 (face 1) or \<open>face * 100\<close> and uses exactly three dice; what is left of the 1s is
  worth 100 each and of the 5s 50 each; nothing else scores.
\<close>

definition spec_rest :: "int \<Rightarrow> int" where
  "spec_rest c = (if c \<ge> 3 then c - 3 else c)"

definition spec_face_points :: "int \<Rightarrow> int \<Rightarrow> int" where
  "spec_face_points face c =
     (if c \<ge> 3 then (if face = 1 then 1000 else face * 100) else 0)
     + (if face = 1 then spec_rest c * 100 else if face = 5 then spec_rest c * 50 else 0)"

definition spec_face_used :: "int \<Rightarrow> int \<Rightarrow> int" where
  "spec_face_used face c =
     (if c \<ge> 3 then 3 else 0) + (if face = 1 \<or> face = 5 then spec_rest c else 0)"

definition occurrences :: "int list \<Rightarrow> int \<Rightarrow> int" where
  "occurrences dice face = int (count_list dice face)"

definition spec_score :: "int list \<Rightarrow> int" where
  "spec_score dice = (\<Sum>face\<leftarrow>[1, 2, 3, 4, 5, 6]. spec_face_points face (occurrences dice face))"

section \<open>The random source\<close>

text \<open>
  Python's \<open>random.Random\<close> is library code, not code of this program. The generator is a
  parameter of the model: a type \<open>'r\<close> of generator states with the three operations the
  program calls. Each operation returns its result together with the next generator state.
  \<open>rng_new seed\<close> is \<open>random.Random(seed)\<close> for an integer seed (the unseeded generator, which
  reads the entropy of the operating system, is not modelled), \<open>rng_randint\<close> is
  \<open>randint(1, 6)\<close> and \<open>rng_shuffle\<close> is \<open>shuffle\<close>.
\<close>

datatype card = Bonus300 | Bonus400 | Bonus500 | NoDice | MustBust | DoubleTrouble

record 'r rng_ops =
  rng_new :: "int \<Rightarrow> 'r"
  rng_randint :: "'r \<Rightarrow> int \<times> 'r"
  rng_shuffle :: "'r \<Rightarrow> card list \<Rightarrow> card list \<times> 'r"

text \<open>
  A generator for running the model on concrete inputs: its state is the list of the values it
  is going to return; a shuffle rotates the list by the next value.
\<close>

definition scripted :: "int list \<Rightarrow> int list rng_ops" where
  "scripted script =
     \<lparr> rng_new = (\<lambda>seed. script),
       rng_randint = (\<lambda>r. case r of [] \<Rightarrow> (1, []) | v # r' \<Rightarrow> (v, r')),
       rng_shuffle = (\<lambda>r cs. case r of [] \<Rightarrow> (cs, []) | v # r' \<Rightarrow> (rotate (nat v) cs, r')) \<rparr>"

section \<open>The card deck\<close>

text \<open>
  The cards are the six strings \<open>'bonus300'\<close>, \<open>'bonus400'\<close>, \<open>'bonus500'\<close>, \<open>'no_dice'\<close>,
  \<open>'must_bust'\<close> and \<open>'double_trouble'\<close>, used as tags; they are the constructors of \<open>card\<close>.
\<close>

datatype py_error = IndexError | EOFError

definition full_deck :: "card list" where
  "full_deck = replicate 6 Bonus300 @ replicate 4 Bonus400 @ replicate 2 Bonus500
     @ replicate 3 NoDice @ replicate 3 MustBust @ replicate 2 DoubleTrouble"

record 'r CardDeckSpecial =
  seed :: int
  deck_rng :: 'r
  cards :: "card list"

definition CardDeckSpecial_init :: "'r rng_ops \<Rightarrow> int \<Rightarrow> 'r CardDeckSpecial" where
  "CardDeckSpecial_init ops sd =
     (case rng_shuffle ops (rng_new ops sd) full_deck of
        (cs, r) \<Rightarrow> \<lparr> seed = sd, deck_rng = r, cards = cs \<rparr>)"

text \<open>
  \<open>draw\<close> returns the card (or the \<open>IndexError\<close> of \<open>pop\<close> on an empty list) and the deck as
  the call leaves it.
\<close>

definition draw :: "'r rng_ops \<Rightarrow> 'r CardDeckSpecial \<Rightarrow> (py_error + card) \<times> 'r CardDeckSpecial" where
  "draw ops d =
     (let d1 = (if cards d = [] then CardDeckSpecial_init ops (seed d) else d) in
      if cards d1 = [] then (Inl IndexError, d1)
      else (Inr (last (cards d1)), d1\<lparr>cards := butlast (cards d1)\<rparr>))"

text \<open>\<open>k\<close> calls of \<open>draw\<close> in a row, stopping at the first error.\<close>

fun draw_many :: "'r rng_ops \<Rightarrow> nat \<Rightarrow> 'r CardDeckSpecial \<Rightarrow> (py_error + card list) \<times> 'r CardDeckSpecial" where
  "draw_many ops 0 d = (Inr [], d)"
| "draw_many ops (Suc k) d =
     (case draw ops d of
        (Inl e, d1) \<Rightarrow> (Inl e, d1)
      | (Inr c, d1) \<Rightarrow>
          (case draw_many ops k d1 of
             (Inl e, d2) \<Rightarrow> (Inl e, d2)
           | (Inr cs, d2) \<Rightarrow> (Inr (c # cs), d2)))"

section \<open>Players, the game and console input\<close>

record Player =
  name :: string
  is_ai :: bool
  points :: int

text \<open>
  The game object. The fields \<open>verbose\<close> and \<open>use_gui\<close> only select what is printed and
  which dialog is shown; the model is the console game and leaves the printed text out.
\<close>

record 'r Game =
  players :: "Player list"
  points_to_win :: int
  ai_threshold_points :: int
  rng :: 'r
  card_deck :: "'r CardDeckSpecial"

definition Game_init :: "'r rng_ops \<Rightarrow> Player list \<Rightarrow> int \<Rightarrow> int \<Rightarrow> int \<Rightarrow> 'r Game" where
  "Game_init ops ps to_win threshold sd =
     \<lparr> players = ps, points_to_win = to_win, ai_threshold_points = threshold,
       rng = rng_new ops sd, card_deck = CardDeckSpecial_init ops sd \<rparr>"

fun roll_n :: "'r rng_ops \<Rightarrow> nat \<Rightarrow> 'r \<Rightarrow> int list \<times> 'r" where
  "roll_n ops 0 r = ([], r)"
| "roll_n ops (Suc k) r =
     (case rng_randint ops r of (v, r1) \<Rightarrow>
        (case roll_n ops k r1 of (vs, r2) \<Rightarrow> (v # vs, r2)))"

definition roll :: "'r rng_ops \<Rightarrow> 'r \<Rightarrow> int \<Rightarrow> int list \<times> 'r" where
  \<comment> \<open>\<open>[self.rng.randint(1, 6) for _ in range(n)]\<close>; \<open>range(n)\<close> is empty for \<open>n \<le> 0\<close>\<close>
  "roll ops r n = roll_n ops (nat n) r"

text \<open>
  Console input is the list of the lines still to be read; \<open>input()\<close> on the empty list raises
  \<open>EOFError\<close>. A character is a code point below 256. \<open>py_isspace\<close> is the whitespace of
  \<open>str.strip\<close> and \<open>str.split\<close>, \<open>py_lower\<close> is \<open>str.lower\<close>, and \<open>py_int\<close> is \<open>int\<close> on a token
  without whitespace: an optional sign, then decimal digits that single underscores may
  separate (\<open>None\<close> is \<open>ValueError\<close>). The interpreter's limit on the number of digits of an
  integer literal (4300 by default) is not modelled.
\<close>

definition py_isspace :: "char \<Rightarrow> bool" where
  "py_isspace c = ((of_char c :: nat) \<in> {9, 10, 11, 12, 13, 28, 29, 30, 31, 32, 133, 160})"

definition py_strip :: "string \<Rightarrow> string" where
  "py_strip s = rev (dropWhile py_isspace (rev (dropWhile py_isspace s)))"

definition py_lower_char :: "char \<Rightarrow> char" where
  "py_lower_char c =
     (let n = (of_char c :: nat) in
      if (65 \<le> n \<and> n \<le> 90) \<or> (192 \<le> n \<and> n \<le> 222 \<and> n \<noteq> 215) then char_of (n + 32) else c)"

definition py_lower :: "string \<Rightarrow> string" where
  "py_lower s = map py_lower_char s"

fun split_acc :: "string \<Rightarrow> string \<Rightarrow> string list" where
  "split_acc [] cur = (if cur = [] then [] else [rev cur])"
| "split_acc (c # cs) cur =
     (if py_isspace c then (if cur = [] then split_acc cs [] else rev cur # split_acc cs [])
      else split_acc cs (c # cur))"

definition py_split :: "string \<Rightarrow> string list" where
  "py_split s = split_acc s []"

definition is_digit :: "char \<Rightarrow> bool" where
  "is_digit c = (48 \<le> (of_char c :: nat) \<and> (of_char c :: nat) \<le> 57)"

fun parse_digits :: "string \<Rightarrow> bool \<Rightarrow> int \<Rightarrow> int option" where
  "parse_digits [] after_digit acc = (if after_digit then Some acc else None)"
| "parse_digits (c # cs) after_digit acc =
     (if is_digit c then parse_digits cs True (acc * 10 + (int (of_char c) - 48))
      else if c = CHR ''_'' \<and> after_digit then parse_digits cs False acc
      else None)"

definition py_int :: "string \<Rightarrow> int option" where
  "py_int tok =
     (case tok of
        [] \<Rightarrow> None
      | c # cs \<Rightarrow>
          if c = CHR ''-'' then map_option uminus (parse_digits cs False 0)
          else if c = CHR ''+'' then parse_digits cs False 0
          else parse_digits tok False 0)"

fun parse_indices :: "string list \<Rightarrow> int list option" where
  \<comment> \<open>\<open>[int(p) - 1 for p in parts]\<close>\<close>
  "parse_indices [] = Some []"
| "parse_indices (p # ps) =
     (case py_int p of
        None \<Rightarrow> None
      | Some v \<Rightarrow> (case parse_indices ps of None \<Rightarrow> None | Some vs \<Rightarrow> Some ((v - 1) # vs)))"

fun prompt_until :: "string list \<Rightarrow> string list \<Rightarrow> (string \<times> string list) option" where
  \<comment> \<open>ask again until the stripped, lower-cased answer is one of \<open>allowed\<close>; \<open>None\<close> is \<open>EOFError\<close>\<close>
  "prompt_until allowed [] = None"
| "prompt_until allowed (l # ls) =
     (let choice = py_lower (py_strip l) in
      if choice \<in> set allowed then Some (choice, ls) else prompt_until allowed ls)"

fun ack :: "string list \<Rightarrow> string list option" where
  \<comment> \<open>\<open>_ack\<close>: read lines until one is \<open>y\<close>\<close>
  "ack [] = None"
| "ack (l # ls) = (if py_lower (py_strip l) = ''y'' then Some ls else ack ls)"

section \<open>The turn\<close>

record special_state =
  bonus :: int
  no_dice :: bool
  must_bust :: bool
  double_trouble :: bool
  bonus_added :: bool

definition no_special :: special_state where
  "no_special = \<lparr> bonus = 0, no_dice = False, must_bust = False, double_trouble = False,
     bonus_added = False \<rparr>"

fun special_state_of :: "card \<Rightarrow> special_state" where
  "special_state_of Bonus300 = no_special\<lparr>bonus := 300\<rparr>"
| "special_state_of Bonus400 = no_special\<lparr>bonus := 400\<rparr>"
| "special_state_of Bonus500 = no_special\<lparr>bonus := 500\<rparr>"
| "special_state_of NoDice = no_special\<lparr>no_dice := True\<rparr>"
| "special_state_of MustBust = no_special\<lparr>must_bust := True\<rparr>"
| "special_state_of DoubleTrouble = no_special\<lparr>double_trouble := True\<rparr>"

text \<open>
  Everything \<open>play_turn\<close> reads and writes while it runs: the game (for its generator and the
  AI threshold), the player, the console lines not yet read, and the local variables.
\<close>

record 'r turn =
  game :: "'r Game"
  player :: Player
  inputs :: "string list"
  special :: special_state
  dice_left :: int
  turn_points :: int
  fills :: int

datatype 'r outcome = Continue "'r turn" | Done "py_error + int" "'r turn"

fun state_of :: "'r outcome \<Rightarrow> 'r turn" where
  "state_of (Continue s) = s"
| "state_of (Done r s) = s"

text \<open>
  The positions of a roll that may be chosen (0-based), as the loop over \<open>face_positions\<close>
  collects them.
\<close>

definition positions :: "int list \<Rightarrow> int \<Rightarrow> int list" where
  "positions rl face = map int (filter (\<lambda>i. rl ! i = face) [0..<length rl])"

definition scoring_indices :: "int list \<Rightarrow> int list" where
  "scoring_indices rl =
     concat (map (\<lambda>face.
        let ps = positions rl face; c = length ps in
        if c \<ge> 3 then take 3 ps @ (if face \<in> {1, 5} \<and> c > 3 then drop 3 ps else [])
        else if face \<in> {1, 5} then ps else []) (remdups rl))"

text \<open>
  The dice a player keeps: the points are added, the dice are taken away, and a fill gives the
  bonus once and six new dice. The program has this block twice (for the automatic choice
  and for the human's choice), with the same statements.
\<close>

definition take_dice :: "int \<Rightarrow> int \<Rightarrow> 'r turn \<Rightarrow> 'r turn" where
  "take_dice taken_score taken_count s =
     (let s1 = s\<lparr>turn_points := turn_points s + taken_score, dice_left := dice_left s - taken_count\<rparr> in
      if dice_left s1 = 0 then
        let s2 = s1\<lparr>fills := fills s1 + 1\<rparr>;
            s3 = (if bonus (special s2) \<noteq> 0 \<and> \<not> bonus_added (special s2)
                  then s2\<lparr>turn_points := turn_points s2 + bonus (special s2),
                          special := (special s2)\<lparr>bonus_added := True\<rparr>\<rparr>
                  else s2)
        in s3\<lparr>dice_left := 6\<rparr>
      else s1)"

definition credit :: "int \<Rightarrow> 'r turn \<Rightarrow> 'r turn" where
  \<comment> \<open>\<open>player.points += n\<close>\<close>
  "credit n s = s\<lparr>player := (player s)\<lparr>points := points (player s) + n\<rparr>\<rparr>"

definition bank :: "'r turn \<Rightarrow> 'r outcome" where
  \<comment> \<open>\<open>player.points += turn_points; return turn_points\<close>\<close>
  "bank s = Done (Inr (turn_points s)) (credit (turn_points s) s)"

definition bust :: "bool \<Rightarrow> 'r turn \<Rightarrow> 'r outcome" where
  "bust interactive s =
     (let s1 = (if must_bust (special s) then credit (turn_points s) s else s) in
      if interactive \<and> \<not> is_ai (player s1) then
        (case ack (inputs s1) of
           None \<Rightarrow> Done (Inl EOFError) (s1\<lparr>inputs := []\<rparr>)
         | Some rest \<Rightarrow> Done (Inr 0) (s1\<lparr>inputs := rest\<rparr>))
      else Done (Inr 0) s1)"

definition auto_take :: "int \<Rightarrow> counter \<Rightarrow> 'r turn \<Rightarrow> 'r outcome" where
  "auto_take score breakdown s =
     (let s1 = take_dice score (counter_total breakdown) s in
      if is_ai (player s1) \<and> turn_points s1 \<ge> ai_threshold_points (game s1) then
        let s2 = credit (turn_points s1) s1;
            s3 = (if bonus (special s2) \<noteq> 0 \<and> fills s2 > 0 then credit (bonus (special s2)) s2 else s2)
        in Done (Inr (turn_points s1)) s3
      else Continue s1)"

text \<open>
  The answer to the prompt for indices: the points and the number of the dice chosen, or
  \<open>None\<close> where the program prints a complaint and executes \<open>continue\<close>.
\<close>

definition choose_indices :: "int list \<Rightarrow> string \<Rightarrow> (int \<times> int) option" where
  "choose_indices rl line =
     (case parse_indices (py_split (py_strip line)) of
        None \<Rightarrow> None
      | Some idx \<Rightarrow>
          if list_ex (\<lambda>i. i < 0 \<or> i \<ge> int (length rl)) idx then None
          else if \<not> set idx \<subseteq> set (scoring_indices rl) then None
          else
            let chosen = map (\<lambda>i. rl ! nat i) idx;
                taken_score = fst (score_dice chosen)
            in if taken_score = 0 then None else Some (taken_score, int (length chosen)))"

definition roll_again_or_bank :: "'r turn \<Rightarrow> 'r outcome" where
  "roll_again_or_bank s =
     (case prompt_until [''r'', ''b''] (inputs s) of
        None \<Rightarrow> Done (Inl EOFError) (s\<lparr>inputs := []\<rparr>)
      | Some (cont, rest) \<Rightarrow>
          if cont = ''b'' then bank (s\<lparr>inputs := rest\<rparr>) else Continue (s\<lparr>inputs := rest\<rparr>))"

definition human_take :: "int list \<Rightarrow> int \<Rightarrow> counter \<Rightarrow> 'r turn \<Rightarrow> 'r outcome" where
  "human_take rl score breakdown s =
     (case prompt_until [''k'', ''b'', ''c''] (inputs s) of
        None \<Rightarrow> Done (Inl EOFError) (s\<lparr>inputs := []\<rparr>)
      | Some (choice, rest) \<Rightarrow>
          let s1 = s\<lparr>inputs := rest\<rparr> in
          if choice = ''b'' then
            (if double_trouble (special s1) \<and> fills s1 < 2 then Continue s1 else bank s1)
          else if choice = ''k'' then
            roll_again_or_bank (take_dice score (counter_total breakdown) s1)
          else
            (case inputs s1 of
               [] \<Rightarrow> Done (Inl EOFError) s1
             | line # rest' \<Rightarrow>
                 let s2 = s1\<lparr>inputs := rest'\<rparr> in
                 (case choose_indices rl line of
                    None \<Rightarrow> Continue s2
                  | Some (taken_score, taken_count) \<Rightarrow>
                      roll_again_or_bank (take_dice taken_score taken_count s2))))"

text \<open>One pass through the body of the \<open>while True\<close> loop of \<open>play_turn\<close>.\<close>

definition turn_iter :: "'r rng_ops \<Rightarrow> bool \<Rightarrow> 'r turn \<Rightarrow> 'r outcome" where
  "turn_iter ops interactive s =
     (case roll ops (rng (game s)) (dice_left s) of
        (rl, r) \<Rightarrow>
          let s1 = s\<lparr>game := (game s)\<lparr>rng := r\<rparr>\<rparr> in
          (case score_dice rl of
             (score, breakdown) \<Rightarrow>
               if score = 0 then bust interactive s1
               else if is_ai (player s1) \<or> \<not> interactive then auto_take score breakdown s1
               else human_take rl score breakdown s1))"

text \<open>
  The loop itself. Nothing bounds the number of its passes (a player who is not an AI never
  banks in a game that is not interactive), so the model counts them down: \<open>None\<close> means that
  the turn has not ended within \<open>fuel\<close> passes.
\<close>

fun turn_loop :: "nat \<Rightarrow> 'r rng_ops \<Rightarrow> bool \<Rightarrow> 'r turn \<Rightarrow> ((py_error + int) \<times> 'r turn) option" where
  "turn_loop 0 ops interactive s = None"
| "turn_loop (Suc fuel) ops interactive s =
     (case turn_iter ops interactive s of
        Continue s1 \<Rightarrow> turn_loop fuel ops interactive s1
      | Done r s1 \<Rightarrow> Some (r, s1))"

definition start_turn :: "'r Game \<Rightarrow> Player \<Rightarrow> string list \<Rightarrow> special_state \<Rightarrow> 'r turn" where
  "start_turn g p ins sp =
     \<lparr> game = g, player = p, inputs = ins, special = sp,
       dice_left = 6, turn_points = 0, fills = 0 \<rparr>"

definition play_turn ::
  "nat \<Rightarrow> 'r rng_ops \<Rightarrow> bool \<Rightarrow> 'r Game \<Rightarrow> Player \<Rightarrow> string list \<Rightarrow> ((py_error + int) \<times> 'r turn) option" where
  "play_turn fuel ops interactive g p ins =
     (case draw ops (card_deck g) of
        (Inl e, d) \<Rightarrow> Some (Inl e, start_turn (g\<lparr>card_deck := d\<rparr>) p ins no_special)
      | (Inr c, d) \<Rightarrow>
          let s = start_turn (g\<lparr>card_deck := d\<rparr>) p ins (special_state_of c) in
          if no_dice (special s) then
            (if \<not> is_ai p \<and> interactive then
               (case ack ins of
                  None \<Rightarrow> Some (Inl EOFError, s\<lparr>inputs := []\<rparr>)
                | Some rest \<Rightarrow> Some (Inr 0, s\<lparr>inputs := rest\<rparr>))
             else Some (Inr 0, s))
          else turn_loop fuel ops interactive s)"

text \<open>
  \<open>run\<close>: the players take turns in order, again and again, until one of them has the points
  to win. \<open>i\<close> is the position of the \<open>for\<close> loop in the list of players; \<open>fuel\<close> bounds the
  passes of the loops.
\<close>

fun run ::
  "nat \<Rightarrow> 'r rng_ops \<Rightarrow> bool \<Rightarrow> 'r Game \<Rightarrow> string list \<Rightarrow> nat
     \<Rightarrow> ((py_error + Player) \<times> 'r Game \<times> string list) option" where
  "run 0 ops interactive g ins i = None"
| "run (Suc fuel) ops interactive g ins i =
     (if i \<ge> length (players g) then run fuel ops interactive g ins 0
      else
        (case play_turn fuel ops interactive g (players g ! i) ins of
           None \<Rightarrow> None
         | Some (r, s) \<Rightarrow>
             let g1 = (game s)\<lparr>players := (players g)[i := player s]\<rparr> in
             (case r of
                Inl e \<Rightarrow> Some (Inl e, g1, inputs s)
              | Inr v \<Rightarrow>
                  if points (player s) \<ge> points_to_win g1 then Some (Inr (player s), g1, inputs s)
                  else run fuel ops interactive g1 (inputs s) (Suc i))))"

section \<open>Observations on a turn\<close>

text \<open>What a pass returned, if it returned; \<open>None\<close> for a pass that goes round the loop again.\<close>

fun result_of :: "'r outcome \<Rightarrow> (py_error + int) option" where
  "result_of (Continue s) = None"
| "result_of (Done r s) = Some r"

fun map_outcome :: "('r turn \<Rightarrow> 'r turn) \<Rightarrow> 'r outcome \<Rightarrow> 'r outcome" where
  "map_outcome f (Continue s) = Continue (f s)"
| "map_outcome f (Done r s) = Done r (f s)"

text \<open>
  The same turn without its bonus card, the relation between the flag \<open>bonus_added\<close> and the
  number of fills that every turn keeps, and the bonus that a pass from \<open>s\<close> to \<open>s'\<close> gives:
  the whole amount if the pass is the first fill, nothing otherwise.
\<close>

definition no_bonus :: "'r turn \<Rightarrow> 'r turn" where
  "no_bonus s = s\<lparr>special := (special s)\<lparr>bonus := 0\<rparr>\<rparr>"

definition bonus_inv :: "'r turn \<Rightarrow> bool" where
  "bonus_inv s = (0 \<le> fills s \<and> bonus_added (special s) = (bonus (special s) \<noteq> 0 \<and> 0 < fills s))"

definition bonus_now :: "'r turn \<Rightarrow> 'r turn \<Rightarrow> int" where
  "bonus_now s s' = (if bonus (special s) \<noteq> 0 \<and> fills s = 0 \<and> fills s' = 1 then bonus (special s) else 0)"

definition ended_without_fill :: "((py_error + int) \<times> 'r turn) option \<Rightarrow> bool" where
  "ended_without_fill res = (case res of None \<Rightarrow> False | Some (r, sf) \<Rightarrow> fills sf = 0)"

definition without_bonus :: "((py_error + int) \<times> 'r turn) option \<Rightarrow> ((py_error + int) \<times> 'r turn) option" where
  "without_bonus res = (case res of None \<Rightarrow> None | Some (r, sf) \<Rightarrow> Some (r, no_bonus sf))"

text \<open>
  What a pass does to the local variables: nothing (\<open>None\<close>), or what \<open>take_dice\<close> does for
  some points and some number of dice.
\<close>

definition follows_pick :: "(int \<times> int) option \<Rightarrow> 'r turn \<Rightarrow> 'r turn \<Rightarrow> bool" where
  "follows_pick pick s s' =
     (case pick of
        None \<Rightarrow> turn_points s' = turn_points s \<and> fills s' = fills s
                  \<and> dice_left s' = dice_left s \<and> special s' = special s
      | Some (ts, tc) \<Rightarrow> turn_points s' = turn_points (take_dice ts tc s)
                  \<and> fills s' = fills (take_dice ts tc s)
                  \<and> dice_left s' = dice_left (take_dice ts tc s)
                  \<and> special s' = special (take_dice ts tc s))"

text \<open>
  The end of a turn in five numbers: what \<open>play_turn\<close> returned, the turn's points, the
  player's points, the fills and the dice left.
\<close>

definition summary ::
  "((py_error + int) \<times> 'r turn) option \<Rightarrow> ((py_error + int) \<times> int \<times> int \<times> int \<times> int) option" where
  "summary res =
     (case res of
        None \<Rightarrow> None
      | Some (r, sf) \<Rightarrow> Some (r, turn_points sf, points (player sf), fills sf, dice_left sf))"

text \<open>The roll that the pass from \<open>s\<close> makes.\<close>

definition rolled :: "'r rng_ops \<Rightarrow> 'r turn \<Rightarrow> int list" where
  "rolled ops s = fst (roll ops (rng (game s)) (dice_left s))"

text \<open>
  What the specification says of a pass of an AI player that rolled \<open>score\<close> points on
  \<open>used_count\<close> scoring dice: all of them are taken, a fill gives six new dice and, the first
  time, the bonus; the player banks as soon as the points of the turn reach the threshold, and
  then the bonus of a turn with a fill is added to the player's points once more.
\<close>

definition ai_pass :: "'r turn \<Rightarrow> int \<Rightarrow> int \<Rightarrow> 'r outcome \<Rightarrow> bool" where
  "ai_pass s score used_count out =
     (let filled = (dice_left s - used_count = 0);
          first = (filled \<and> bonus (special s) \<noteq> 0 \<and> \<not> bonus_added (special s));
          tp = turn_points s + score + (if first then bonus (special s) else 0);
          fl = fills s + (if filled then 1 else 0);
          banks = (tp \<ge> ai_threshold_points (game s))
      in turn_points (state_of out) = tp
       \<and> fills (state_of out) = fl
       \<and> dice_left (state_of out) = (if filled then 6 else dice_left s - used_count)
       \<and> result_of out = (if banks then Some (Inr tp) else None)
       \<and> points (player (state_of out))
           = points (player s)
             + (if banks then tp + (if bonus (special s) \<noteq> 0 \<and> fl > 0 then bonus (special s) else 0)
                else 0))"

text \<open>The number of scoring dice of a roll, by the rule of the specification.\<close>

definition spec_used_count :: "int list \<Rightarrow> int" where
  "spec_used_count dice = (\<Sum>face\<leftarrow>[1, 2, 3, 4, 5, 6]. spec_face_used face (occurrences dice face))"

definition good_keys :: "counter \<Rightarrow> bool" where
  "good_keys c = (distinct (map fst c) \<and> set (map fst c) \<subseteq> {1, 2, 3, 4, 5, 6})"

text \<open>
  The dice a pass takes, in the words of the specification, as points and number of dice:
  nothing when the roll is a bust, all the scoring dice for a player who is not asked, and for
  a human what the console answers choose (nothing on \<open>b\<close>, on a refused choice or when the
  console ends).
\<close>

definition spec_human_pick :: "int list \<Rightarrow> string list \<Rightarrow> (int \<times> int) option" where
  "spec_human_pick rl ins =
     (case prompt_until [''k'', ''b'', ''c''] ins of
        None \<Rightarrow> None
      | Some (choice, rest) \<Rightarrow>
          if choice = ''b'' then None
          else if choice = ''k'' then Some (fst (score_dice rl), spec_used_count rl)
          else (case rest of [] \<Rightarrow> None | line # rest' \<Rightarrow> choose_indices rl line))"

definition spec_pick :: "'r rng_ops \<Rightarrow> bool \<Rightarrow> 'r turn \<Rightarrow> (int \<times> int) option" where
  "spec_pick ops i s =
     (if fst (score_dice (rolled ops s)) = 0 then None
      else if i \<and> \<not> is_ai (player s) then spec_human_pick (rolled ops s) (inputs s)
      else Some (fst (score_dice (rolled ops s)), spec_used_count (rolled ops s)))"

text \<open>
  What taking dice does, in the words of the specification: the points are added; the dice
  left reaching 0 is a fill, which is counted and gives six new dice; the bonus is added when
  that fill is the first of the turn, and at no other moment.
\<close>

definition spec_take :: "(int \<times> int) option \<Rightarrow> 'r turn \<Rightarrow> 'r turn \<Rightarrow> bool" where
  "spec_take pick s s' =
     (case pick of
        None \<Rightarrow> turn_points s' = turn_points s \<and> fills s' = fills s \<and> dice_left s' = dice_left s
      | Some (ts, tc) \<Rightarrow>
          turn_points s' = turn_points s + ts
             + (if dice_left s - tc = 0 \<and> fills s = 0 then bonus (special s) else 0)
        \<and> fills s' = fills s + (if dice_left s - tc = 0 then 1 else 0)
        \<and> dice_left s' = (if dice_left s - tc = 0 then 6 else dice_left s - tc))"


text \<open>
  A table for running turns: a human and an AI, a deck whose next card is \<open>c\<close>, and the values
  the dice are going to show.
\<close>

definition human :: Player where
  "human = \<lparr> name = ''P1'', is_ai = False, points = 0 \<rparr>"

definition robot :: Player where
  "robot = \<lparr> name = ''P2'', is_ai = True, points = 0 \<rparr>"

definition table :: "card \<Rightarrow> int list \<Rightarrow> int list Game" where
  "table c script =
     \<lparr> players = [human, robot], points_to_win = 2000, ai_threshold_points = 500,
       rng = script, card_deck = \<lparr> seed = 7, deck_rng = [], cards = [c] \<rparr> \<rparr>"

text \<open>
  The end of a turn, or of a match, of a player who is not asked anything: the same result, with
  the console lines \<open>x\<close> in place of none. The deck a turn leaves, and who won a match.
\<close>

definition unread :: "string list \<Rightarrow> ((py_error + int) \<times> 'r turn) option \<Rightarrow> ((py_error + int) \<times> 'r turn) option" where
  "unread x res = (case res of None \<Rightarrow> None | Some (r, t) \<Rightarrow> Some (r, t\<lparr>inputs := x\<rparr>))"

definition unread_match ::
  "string list \<Rightarrow> ((py_error + Player) \<times> 'r Game \<times> string list) option
     \<Rightarrow> ((py_error + Player) \<times> 'r Game \<times> string list) option" where
  "unread_match x res = (case res of None \<Rightarrow> None | Some (r, g, ins) \<Rightarrow> Some (r, g, x))"

definition deck_after :: "((py_error + int) \<times> 'r turn) option \<Rightarrow> 'r CardDeckSpecial option" where
  "deck_after res = (case res of None \<Rightarrow> None | Some (r, s) \<Rightarrow> Some (card_deck (game s)))"

definition winner :: "((py_error + Player) \<times> 'r Game \<times> string list) option \<Rightarrow> (py_error + Player) option" where
  "winner res = (case res of None \<Rightarrow> None | Some (r, g, ins) \<Rightarrow> Some r)"

section \<open>Properties of the scorer\<close>

lemma counter_get_set:
  "counter_get (counter_set c k v) k' d = (if k' = k then v else counter_get c k' d)"
  by (simp add: counter_get_def counter_set_def update_conv')

lemma counter_get_add:
  "counter_get (counter_add c k n) k' 0 = counter_get c k' 0 + (if k' = k then n else 0)"
  by (simp add: counter_add_def counter_get_set)

lemma counter_get_fold_add:
  "counter_get (fold (\<lambda>d c. counter_add c d 1) dice c) face 0
     = counter_get c face 0 + occurrences dice face"
  by (induction dice arbitrary: c) (auto simp: counter_get_add occurrences_def)

lemma counter_get_Counter: "counter_get (Counter dice) face 0 = occurrences dice face"
  by (simp add: Counter_def counter_get_fold_add) (simp add: counter_get_def)

lemma fold_three_of_a_kind:
  "distinct fs \<Longrightarrow> fold three_of_a_kind fs (cnt, score, used) = (cnt', score', used') \<Longrightarrow>
     score' = score + (\<Sum>f\<leftarrow>fs. if counter_get cnt f 0 \<ge> 3 then (if f = 1 then 1000 else f * 100) else 0)
   \<and> (\<forall>f. counter_get cnt' f 0 = (if f \<in> set fs then spec_rest (counter_get cnt f 0) else counter_get cnt f 0))
   \<and> (\<forall>f. counter_get used' f 0 = counter_get used f 0 + (if f \<in> set fs \<and> counter_get cnt f 0 \<ge> 3 then 3 else 0))"
proof (induction fs arbitrary: cnt score used)
  case Nil
  then show ?case by simp
next
  case (Cons x xs)
  obtain c1 s1 u1 where st: "three_of_a_kind x (cnt, score, used) = (c1, s1, u1)"
    by (cases "three_of_a_kind x (cnt, score, used)") auto
  from Cons.prems have d: "distinct xs" and nx: "x \<notin> set xs" by auto
  from Cons.prems st have f: "fold three_of_a_kind xs (c1, s1, u1) = (cnt', score', used')" by simp
  note IH = Cons.IH[OF d f]
  show ?case
  proof (cases "counter_get cnt x 0 \<ge> 3")
    case True
    with st have e: "c1 = counter_set cnt x (counter_get cnt x 0 - 3)"
      "s1 = score + (if x = 1 then 1000 else x * 100)" "u1 = counter_add used x 3"
      by (auto simp: three_of_a_kind_def Let_def)
    have other: "\<And>f. f \<in> set xs \<Longrightarrow> counter_get c1 f 0 = counter_get cnt f 0"
      using nx by (auto simp: e counter_get_set)
    have sum_eq: "(\<Sum>f\<leftarrow>xs. if counter_get c1 f 0 \<ge> 3 then (if f = 1 then 1000 else f * 100) else 0)
        = (\<Sum>f\<leftarrow>xs. if counter_get cnt f 0 \<ge> 3 then (if f = 1 then 1000 else f * 100) else 0)"
      by (rule arg_cong[where f=sum_list], rule map_cong) (auto simp: other)
    show ?thesis using IH True nx unfolding sum_eq
      by (auto simp: e counter_get_set counter_get_add spec_rest_def)
  next
    case False
    with st have e: "c1 = cnt" "s1 = score" "u1 = used"
      by (auto simp: three_of_a_kind_def Let_def)
    show ?thesis using IH False nx by (auto simp: e spec_rest_def)
  qed
qed


lemma occurrences_nonneg: "0 \<le> occurrences dice face"
  by (simp add: occurrences_def)

lemma spec_rest_nonneg: "0 \<le> c \<Longrightarrow> 0 \<le> spec_rest c"
  by (simp add: spec_rest_def)

lemma singles_eq:
  "0 \<le> counter_get cnt face 0 \<Longrightarrow>
   singles face val (cnt, score, used) =
     (cnt, score + counter_get cnt face 0 * val,
      if counter_get cnt face 0 > 0 then counter_add used face (counter_get cnt face 0) else used)"
  by (auto simp: singles_def)

lemma score_dice_points: "fst (score_dice dice) = spec_score dice"
proof -
  obtain c1 s1 u1 where f: "fold three_of_a_kind [1, 2, 3, 4, 5, 6] (Counter dice, 0, []) = (c1, s1, u1)"
    by (cases "fold three_of_a_kind [1, 2, 3, 4, 5, 6] (Counter dice, 0, [])") auto
  have d: "distinct [1, 2, 3, 4, 5, 6::int]" by simp
  note F = fold_three_of_a_kind[OF d f]
  from F have "\<forall>f. counter_get c1 f 0 = (if f \<in> set [1, 2, 3, 4, 5, 6] then spec_rest (counter_get (Counter dice) f 0) else counter_get (Counter dice) f 0)"
    by blast
  then have c1: "counter_get c1 1 0 = spec_rest (occurrences dice 1)" "counter_get c1 5 0 = spec_rest (occurrences dice 5)"
    by (simp_all add: counter_get_Counter)
  from F have "s1 = 0 + (\<Sum>f\<leftarrow>[1, 2, 3, 4, 5, 6]. if counter_get (Counter dice) f 0 \<ge> 3 then (if f = 1 then 1000 else f * 100) else 0)"
    by blast
  then have s1: "s1 = (\<Sum>f\<leftarrow>[1, 2, 3, 4, 5, 6]. if occurrences dice f \<ge> 3 then (if f = 1 then 1000 else f * 100) else 0)"
    by (simp only: counter_get_Counter add_0)
  have r: "0 \<le> counter_get c1 1 0" "0 \<le> counter_get c1 5 0"
    unfolding c1 by (rule spec_rest_nonneg, rule occurrences_nonneg)+
  have "fst (score_dice dice) = s1 + spec_rest (occurrences dice 1) * 100 + spec_rest (occurrences dice 5) * 50"
    unfolding score_dice_def f using r c1 by (simp add: singles_eq)
  also have "\<dots> = spec_score dice"
    unfolding s1 by (simp add: spec_score_def spec_face_points_def)
  finally show ?thesis .
qed


lemma counter_get_empty: "counter_get [] k d = d"
  by (simp add: counter_get_def)

lemma score_dice_used:
  "counter_get (snd (score_dice dice)) face 0
     = (if face \<in> {1, 2, 3, 4, 5, 6} then spec_face_used face (occurrences dice face) else 0)"
proof -
  obtain c1 s1 u1 where f: "fold three_of_a_kind [1, 2, 3, 4, 5, 6] (Counter dice, 0, []) = (c1, s1, u1)"
    by (cases "fold three_of_a_kind [1, 2, 3, 4, 5, 6] (Counter dice, 0, [])") auto
  have d: "distinct [1, 2, 3, 4, 5, 6::int]" by simp
  note F = fold_three_of_a_kind[OF d f]
  from F have "\<forall>f. counter_get c1 f 0 = (if f \<in> set [1, 2, 3, 4, 5, 6] then spec_rest (counter_get (Counter dice) f 0) else counter_get (Counter dice) f 0)"
    by blast
  then have c1: "counter_get c1 1 0 = spec_rest (occurrences dice 1)" "counter_get c1 5 0 = spec_rest (occurrences dice 5)"
    by (simp_all add: counter_get_Counter)
  from F have "counter_get u1 face 0 = counter_get [] face 0 + (if face \<in> set [1, 2, 3, 4, 5, 6] \<and> counter_get (Counter dice) face 0 \<ge> 3 then 3 else 0)"
    by blast
  then have u1: "counter_get u1 face 0 = (if face \<in> set [1, 2, 3, 4, 5, 6] \<and> occurrences dice face \<ge> 3 then 3 else 0)"
    by (simp only: counter_get_Counter counter_get_empty add_0)
  have r: "0 \<le> counter_get c1 1 0" "0 \<le> counter_get c1 5 0"
    unfolding c1 by (rule spec_rest_nonneg, rule occurrences_nonneg)+
  define u2 where "u2 = (if counter_get c1 1 0 > 0 then counter_add u1 1 (counter_get c1 1 0) else u1)"
  have u: "snd (score_dice dice) = (if counter_get c1 5 0 > 0 then counter_add u2 5 (counter_get c1 5 0) else u2)"
    unfolding score_dice_def f u2_def using r by (simp add: singles_eq)
  have g2: "counter_get u2 face 0 = counter_get u1 face 0 + (if face = 1 then counter_get c1 1 0 else 0)"
    unfolding u2_def using r by (simp add: counter_get_add)
  have g3: "counter_get (snd (score_dice dice)) face 0 = counter_get u2 face 0 + (if face = 5 then counter_get c1 5 0 else 0)"
    unfolding u using r by (simp add: counter_get_add)
  consider "face = 1" | "face = 5" | "face \<noteq> 1" "face \<noteq> 5" by blast
  then show ?thesis
  proof cases
    case 1
    then show ?thesis unfolding g3 g2 u1 c1 by (simp add: spec_face_used_def)
  next
    case 2
    then show ?thesis unfolding g3 g2 u1 c1 by (simp add: spec_face_used_def)
  next
    case 3
    then show ?thesis unfolding g3 g2 u1 c1 by (simp add: spec_face_used_def)
  qed
qed


text \<open>
  C1. For every roll, the points \<open>score_dice\<close> returns are the sum over the faces 1 to 6 of what
  the specification gives each face: a face with at least three occurrences scores 1000
  (face 1) or \<open>face * 100\<close> and uses exactly three dice, however many more there are; each 1
  that is left scores 100 and each 5 that is left 50; nothing else scores. The dice it reports
  as used are, face by face, the three of the triple plus the 1s and 5s that are left. In
  particular four 1s score 1100, four 6s score 600, \<open>[2, 3, 4, 6]\<close> scores 0, and \<open>[1, 5]\<close>
  scores 150 with the counts \<open>{1: 1, 5: 1}\<close>.
\<close>

theorem score_dice_meets_scoring_rule:
  "fst (score_dice dice) = spec_score dice
   \<and> counter_get (snd (score_dice dice)) face 0
       = (if face \<in> {1, 2, 3, 4, 5, 6} then spec_face_used face (occurrences dice face) else 0)
   \<and> fst (score_dice [1, 1, 1, 1]) = 1100
   \<and> fst (score_dice [6, 6, 6, 6]) = 600
   \<and> fst (score_dice [2, 3, 4, 6]) = 0
   \<and> score_dice [1, 5] = (150, [(1, 1), (5, 1)])"
proof -
  have "fst (score_dice [1, 1, 1, 1]) = 1100" by code_simp
  moreover have "fst (score_dice [6, 6, 6, 6]) = 600" by code_simp
  moreover have "fst (score_dice [2, 3, 4, 6]) = 0" by code_simp
  moreover have "score_dice [1, 5] = (150, [(1, 1), (5, 1)])" by code_simp
  ultimately show ?thesis
    using score_dice_points[of dice] score_dice_used[of dice face] by blast
qed


section \<open>Properties of the turn\<close>

lemma spec_face_points_nonneg: "0 \<le> c \<Longrightarrow> 0 \<le> face \<Longrightarrow> 0 \<le> spec_face_points face c"
  by (simp add: spec_face_points_def spec_rest_def)

lemma score_dice_nonneg: "0 \<le> fst (score_dice dice)"
  unfolding score_dice_points spec_score_def
  by (simp add: spec_face_points_nonneg occurrences_nonneg add_nonneg_nonneg)

lemma take_dice_turn_points:
  "turn_points (take_dice ts tc s) = turn_points s + ts
     + (if dice_left s - tc = 0 \<and> bonus (special s) \<noteq> 0 \<and> \<not> bonus_added (special s)
        then bonus (special s) else 0)"
  by (simp add: take_dice_def Let_def)

lemma take_dice_dice_left:
  "dice_left (take_dice ts tc s) = (if dice_left s - tc = 0 then 6 else dice_left s - tc)"
  by (simp add: take_dice_def Let_def)

lemma take_dice_fills:
  "fills (take_dice ts tc s) = fills s + (if dice_left s - tc = 0 then 1 else 0)"
  by (simp add: take_dice_def Let_def)

lemma take_dice_special:
  "special (take_dice ts tc s) =
     (if dice_left s - tc = 0 \<and> bonus (special s) \<noteq> 0 \<and> \<not> bonus_added (special s)
      then (special s)\<lparr>bonus_added := True\<rparr> else special s)"
  by (simp add: take_dice_def Let_def)

lemma take_dice_frame:
  "player (take_dice ts tc s) = player s" "game (take_dice ts tc s) = game s"
  "inputs (take_dice ts tc s) = inputs s"
  by (simp_all add: take_dice_def Let_def)

lemma take_dice_special_fields:
  "bonus (special (take_dice ts tc s)) = bonus (special s)"
  "must_bust (special (take_dice ts tc s)) = must_bust (special s)"
  "double_trouble (special (take_dice ts tc s)) = double_trouble (special s)"
  "no_dice (special (take_dice ts tc s)) = no_dice (special s)"
  "bonus_added (special (take_dice ts tc s))
     = (bonus_added (special s) \<or> (dice_left s - tc = 0 \<and> bonus (special s) \<noteq> 0))"
  by (auto simp: take_dice_special)

lemmas take_dice_simps = take_dice_turn_points take_dice_dice_left take_dice_fills
  take_dice_special_fields take_dice_frame

lemma credit_simps:
  "turn_points (credit n s) = turn_points s" "dice_left (credit n s) = dice_left s"
  "fills (credit n s) = fills s" "special (credit n s) = special s"
  "game (credit n s) = game s" "inputs (credit n s) = inputs s"
  "player (credit n s) = (player s)\<lparr>points := points (player s) + n\<rparr>"
  by (simp_all add: credit_def)

lemma bank_simps:
  "result_of (bank s) = Some (Inr (turn_points s))"
  "state_of (bank s) = credit (turn_points s) s"
  by (simp_all add: bank_def)

lemma state_of_roll_again_or_bank:
  "turn_points (state_of (roll_again_or_bank s)) = turn_points s"
  "dice_left (state_of (roll_again_or_bank s)) = dice_left s"
  "fills (state_of (roll_again_or_bank s)) = fills s"
  "special (state_of (roll_again_or_bank s)) = special s"
  "game (state_of (roll_again_or_bank s)) = game s"
  by (simp_all add: roll_again_or_bank_def bank_def credit_def split: option.splits prod.splits)

lemma state_of_bust:
  "turn_points (state_of (bust i s)) = turn_points s"
  "dice_left (state_of (bust i s)) = dice_left s"
  "fills (state_of (bust i s)) = fills s"
  "special (state_of (bust i s)) = special s"
  "game (state_of (bust i s)) = game s"
  by (simp_all add: bust_def credit_def Let_def split: option.splits)

lemma state_of_auto_take:
  "turn_points (state_of (auto_take sc bd s)) = turn_points (take_dice sc (counter_total bd) s)"
  "dice_left (state_of (auto_take sc bd s)) = dice_left (take_dice sc (counter_total bd) s)"
  "fills (state_of (auto_take sc bd s)) = fills (take_dice sc (counter_total bd) s)"
  "special (state_of (auto_take sc bd s)) = special (take_dice sc (counter_total bd) s)"
  "game (state_of (auto_take sc bd s)) = game s"
  by (simp_all add: auto_take_def credit_def Let_def take_dice_frame)

lemma no_bonus_simps:
  "turn_points (no_bonus s) = turn_points s" "dice_left (no_bonus s) = dice_left s"
  "fills (no_bonus s) = fills s" "game (no_bonus s) = game s" "inputs (no_bonus s) = inputs s"
  "player (no_bonus s) = player s" "bonus (special (no_bonus s)) = 0"
  "bonus_added (special (no_bonus s)) = bonus_added (special s)"
  "double_trouble (special (no_bonus s)) = double_trouble (special s)"
  "must_bust (special (no_bonus s)) = must_bust (special s)"
  by (simp_all add: no_bonus_def)

lemma take_dice_no_bonus:
  assumes "bonus_inv s"
  shows "fills (take_dice ts tc (no_bonus s)) = fills (take_dice ts tc s)"
    and "dice_left (take_dice ts tc (no_bonus s)) = dice_left (take_dice ts tc s)"
    and "turn_points (take_dice ts tc s)
           = turn_points (take_dice ts tc (no_bonus s)) + bonus_now s (take_dice ts tc s)"
    and "bonus_inv (take_dice ts tc s)"
  using assms by (auto simp: take_dice_simps no_bonus_simps bonus_now_def bonus_inv_def)


lemma follows_pick_frame:
  "turn_points s1 = turn_points s \<Longrightarrow> fills s1 = fills s \<Longrightarrow> dice_left s1 = dice_left s \<Longrightarrow>
   special s1 = special s \<Longrightarrow> follows_pick pick s1 s' = follows_pick pick s s'"
  by (simp add: follows_pick_def take_dice_turn_points take_dice_fills take_dice_dice_left
      take_dice_special split: option.splits prod.splits)

lemma human_take_pick:
  "\<exists>pick. \<forall>s. inputs s = ins \<longrightarrow> double_trouble (special s) = dt \<longrightarrow>
     follows_pick pick s (state_of (human_take rl sc bd s))"
proof (cases "prompt_until [''k'', ''b'', ''c''] ins")
  case None
  then show ?thesis
    by (intro exI[of _ None]) (simp add: human_take_def follows_pick_def)
next
  case (Some a)
  obtain choice rest where a: "a = (choice, rest)" by (cases a)
  show ?thesis
  proof (cases "choice = ''b''")
    case True
    then show ?thesis using Some a
      by (intro exI[of _ None]) (simp add: human_take_def bank_def credit_def Let_def follows_pick_def)
  next
    case nb: False
    show ?thesis
    proof (cases "choice = ''k''")
      case True
      then show ?thesis using Some a
        by (intro exI[of _ "Some (sc, counter_total bd)"])
           (simp add: human_take_def Let_def state_of_roll_again_or_bank take_dice_simps follows_pick_def)
    next
      case nk: False
      show ?thesis
      proof (cases rest)
        case Nil
        then show ?thesis using Some a nb nk
          by (intro exI[of _ None]) (simp add: human_take_def Let_def follows_pick_def)
      next
        case (Cons line rest')
        show ?thesis
        proof (cases "choose_indices rl line")
          case None
          then show ?thesis using Some a nb nk Cons
            by (intro exI[of _ None]) (simp add: human_take_def Let_def follows_pick_def)
        next
          case (Some p)
          obtain ts tc where p: "p = (ts, tc)" by (cases p)
          show ?thesis using \<open>prompt_until [''k'', ''b'', ''c''] ins = Some a\<close> a nb nk Cons Some p
            by (intro exI[of _ "Some (ts, tc)"])
               (simp add: human_take_def Let_def state_of_roll_again_or_bank take_dice_simps follows_pick_def)
        qed
      qed
    qed
  qed
qed

lemma turn_iter_pick:
  "\<exists>pick. \<forall>s. rng (game s) = r \<longrightarrow> dice_left s = n \<longrightarrow> inputs s = ins \<longrightarrow>
       is_ai (player s) = ai \<longrightarrow> double_trouble (special s) = dt \<longrightarrow>
     follows_pick pick s (state_of (turn_iter ops i s))"
proof -
  obtain rl r1 where rl: "roll ops r n = (rl, r1)" by (cases "roll ops r n")
  obtain sc bd where sc: "score_dice rl = (sc, bd)" by (cases "score_dice rl")
  show ?thesis
  proof (cases "sc = 0")
    case True
    then show ?thesis using rl sc
      by (intro exI[of _ None]) (simp add: turn_iter_def Let_def state_of_bust follows_pick_def)
  next
    case nz: False
    show ?thesis
    proof (cases "ai \<or> \<not> i")
      case True
      then show ?thesis using rl sc nz
        by (intro exI[of _ "Some (sc, counter_total bd)"])
           (auto simp: turn_iter_def Let_def state_of_auto_take take_dice_simps follows_pick_def)
    next
      case False
      from human_take_pick[of ins dt rl sc bd] obtain pick where
        pick: "\<And>s::'a turn. inputs s = ins \<Longrightarrow> double_trouble (special s) = dt \<Longrightarrow>
           follows_pick pick s (state_of (human_take rl sc bd s))" by blast
      show ?thesis
      proof (intro exI[of _ pick] allI impI)
        fix s :: "'a turn"
        assume a: "rng (game s) = r" "dice_left s = n" "inputs s = ins" "is_ai (player s) = ai"
          "double_trouble (special s) = dt"
        let ?s1 = "s\<lparr>game := (game s)\<lparr>rng := r1\<rparr>\<rparr>"
        have ti: "turn_iter ops i s = human_take rl sc bd ?s1"
          using a rl sc nz False by (simp add: turn_iter_def Let_def)
        have "follows_pick pick ?s1 (state_of (human_take rl sc bd ?s1))"
          by (rule pick) (simp_all add: a)
        then show "follows_pick pick s (state_of (turn_iter ops i s))"
          unfolding ti by (simp add: follows_pick_frame[of ?s1 s])
      qed
    qed
  qed
qed

lemma turn_iter_bonus:
  assumes inv: "bonus_inv s"
  shows "bonus_inv (state_of (turn_iter ops i s))"
    and "fills (state_of (turn_iter ops i (no_bonus s))) = fills (state_of (turn_iter ops i s))"
    and "turn_points (state_of (turn_iter ops i s))
          = turn_points (state_of (turn_iter ops i (no_bonus s)))
            + bonus_now s (state_of (turn_iter ops i s))"
    and "fills s \<le> fills (state_of (turn_iter ops i s))"
proof -
  from turn_iter_pick[of "rng (game s)" "dice_left s" "inputs s" "is_ai (player s)"
      "double_trouble (special s)" ops i]
  obtain pick where pick: "\<And>s'::'a turn. rng (game s') = rng (game s) \<Longrightarrow> dice_left s' = dice_left s \<Longrightarrow>
       inputs s' = inputs s \<Longrightarrow> is_ai (player s') = is_ai (player s) \<Longrightarrow>
       double_trouble (special s') = double_trouble (special s) \<Longrightarrow>
       follows_pick pick s' (state_of (turn_iter ops i s'))" by blast
  have A: "follows_pick pick s (state_of (turn_iter ops i s))"
    by (rule pick) simp_all
  have B: "follows_pick pick (no_bonus s) (state_of (turn_iter ops i (no_bonus s)))"
    by (rule pick) (simp_all add: no_bonus_simps)
  show "bonus_inv (state_of (turn_iter ops i s))"
  proof (cases pick)
    case None
    with A inv show ?thesis
      by (simp add: follows_pick_def bonus_inv_def)
  next
    case (Some p)
    obtain ts tc where p: "p = (ts, tc)" by (cases p)
    from A Some p have "fills (state_of (turn_iter ops i s)) = fills (take_dice ts tc s)"
      "special (state_of (turn_iter ops i s)) = special (take_dice ts tc s)"
      by (simp_all add: follows_pick_def)
    then have "bonus_inv (state_of (turn_iter ops i s)) = bonus_inv (take_dice ts tc s)"
      by (simp add: bonus_inv_def)
    then show ?thesis using take_dice_no_bonus(4)[OF inv, of ts tc] by simp
  qed
  show "fills (state_of (turn_iter ops i (no_bonus s))) = fills (state_of (turn_iter ops i s))"
    using A B by (cases pick) (auto simp: follows_pick_def take_dice_simps no_bonus_simps)
  show "turn_points (state_of (turn_iter ops i s))
          = turn_points (state_of (turn_iter ops i (no_bonus s)))
            + bonus_now s (state_of (turn_iter ops i s))"
  proof (cases pick)
    case None
    with A B inv show ?thesis
      by (simp add: follows_pick_def no_bonus_simps bonus_now_def)
  next
    case (Some p)
    obtain ts tc where p: "p = (ts, tc)" by (cases p)
    from A Some p have a: "turn_points (state_of (turn_iter ops i s)) = turn_points (take_dice ts tc s)"
      "fills (state_of (turn_iter ops i s)) = fills (take_dice ts tc s)"
      by (simp_all add: follows_pick_def)
    from B Some p have b: "turn_points (state_of (turn_iter ops i (no_bonus s)))
        = turn_points (take_dice ts tc (no_bonus s))"
      by (simp add: follows_pick_def)
    have "bonus_now s (state_of (turn_iter ops i s)) = bonus_now s (take_dice ts tc s)"
      by (simp add: bonus_now_def a)
    then show ?thesis
      unfolding a b using take_dice_no_bonus(3)[OF inv, of ts tc] by simp
  qed
  show "fills s \<le> fills (state_of (turn_iter ops i s))"
    using A by (cases pick) (auto simp: follows_pick_def take_dice_simps)
qed

lemma take_dice_no_fill:
  "dice_left s - tc \<noteq> 0 \<Longrightarrow> take_dice ts tc (no_bonus s) = no_bonus (take_dice ts tc s)"
  by (simp add: take_dice_def no_bonus_def Let_def)

lemma no_bonus_updates:
  "no_bonus (s\<lparr>inputs := ins\<rparr>) = (no_bonus s)\<lparr>inputs := ins\<rparr>"
  "no_bonus (s\<lparr>game := g\<rparr>) = (no_bonus s)\<lparr>game := g\<rparr>"
  "no_bonus (credit n s) = credit n (no_bonus s)"
  by (simp_all add: no_bonus_def credit_def)

lemma bank_no_bonus: "bank (no_bonus s) = map_outcome no_bonus (bank s)"
  by (simp add: bank_def no_bonus_updates no_bonus_simps)

lemma bust_no_bonus: "bust i (no_bonus s) = map_outcome no_bonus (bust i s)"
  by (auto simp: bust_def Let_def no_bonus_updates no_bonus_simps credit_simps split: option.splits)

lemma roll_again_or_bank_no_bonus:
  "roll_again_or_bank (no_bonus s) = map_outcome no_bonus (roll_again_or_bank s)"
  by (simp add: roll_again_or_bank_def no_bonus_updates[symmetric] no_bonus_simps bank_no_bonus
      split: option.splits prod.splits)

lemma take_dice_fills_zero:
  "fills s = 0 \<Longrightarrow> fills (take_dice ts tc s) = 0 \<Longrightarrow> dice_left s - tc \<noteq> 0"
  by (auto simp: take_dice_fills)

lemma auto_take_no_bonus:
  assumes "fills s = 0" "fills (state_of (auto_take sc bd s)) = 0"
  shows "auto_take sc bd (no_bonus s) = map_outcome no_bonus (auto_take sc bd s)"
proof -
  from assms have f: "fills (take_dice sc (counter_total bd) s) = 0"
    by (simp add: state_of_auto_take)
  from assms(1) f have nf: "dice_left s - counter_total bd \<noteq> 0" by (rule take_dice_fills_zero)
  show ?thesis
    unfolding auto_take_def take_dice_no_fill[OF nf] using f
    by (simp add: Let_def no_bonus_simps credit_simps no_bonus_updates)
qed

lemma human_take_no_bonus:
  assumes "fills s = 0" "fills (state_of (human_take rl sc bd s)) = 0"
  shows "human_take rl sc bd (no_bonus s) = map_outcome no_bonus (human_take rl sc bd s)"
proof (cases "prompt_until [''k'', ''b'', ''c''] (inputs s)")
  case None
  then show ?thesis by (simp add: human_take_def no_bonus_simps no_bonus_updates)
next
  case (Some a)
  obtain choice rest where a: "a = (choice, rest)" by (cases a)
  show ?thesis
  proof (cases "choice = ''b''")
    case True
    then show ?thesis using Some a
      by (simp add: human_take_def Let_def no_bonus_simps no_bonus_updates[symmetric] bank_no_bonus)
  next
    case nb: False
    show ?thesis
    proof (cases "choice = ''k''")
      case True
      let ?s1 = "s\<lparr>inputs := rest\<rparr>"
      have h: "human_take rl sc bd s = roll_again_or_bank (take_dice sc (counter_total bd) ?s1)"
        using Some a True by (simp add: human_take_def Let_def)
      have h0: "human_take rl sc bd (no_bonus s)
          = roll_again_or_bank (take_dice sc (counter_total bd) (no_bonus ?s1))"
        using Some a True by (simp add: human_take_def Let_def no_bonus_simps no_bonus_updates)
      from assms(2) have "fills (take_dice sc (counter_total bd) ?s1) = 0"
        unfolding h by (simp add: state_of_roll_again_or_bank)
      with assms(1) have "dice_left ?s1 - counter_total bd \<noteq> 0"
        by (intro take_dice_fills_zero) simp_all
      then show ?thesis unfolding h h0
        by (simp add: take_dice_no_fill roll_again_or_bank_no_bonus)
    next
      case nk: False
      show ?thesis
      proof (cases rest)
        case Nil
        then show ?thesis using Some a nb nk
          by (simp add: human_take_def Let_def no_bonus_simps no_bonus_updates)
      next
        case (Cons line rest')
        show ?thesis
        proof (cases "choose_indices rl line")
          case None
          then show ?thesis using Some a nb nk Cons
            by (simp add: human_take_def Let_def no_bonus_simps no_bonus_updates)
        next
          case (Some p)
          obtain ts tc where p: "p = (ts, tc)" by (cases p)
          let ?s2 = "s\<lparr>inputs := rest'\<rparr>"
          note pu = \<open>prompt_until [''k'', ''b'', ''c''] (inputs s) = Some a\<close>
          have h: "human_take rl sc bd s = roll_again_or_bank (take_dice ts tc ?s2)"
            using pu a nb nk Cons Some p by (simp add: human_take_def Let_def)
          have h0: "human_take rl sc bd (no_bonus s) = roll_again_or_bank (take_dice ts tc (no_bonus ?s2))"
            using pu a nb nk Cons Some p
            by (simp add: human_take_def Let_def no_bonus_simps no_bonus_updates)
          from assms(2) have "fills (take_dice ts tc ?s2) = 0"
            unfolding h by (simp add: state_of_roll_again_or_bank)
          with assms(1) have "dice_left ?s2 - tc \<noteq> 0"
            by (intro take_dice_fills_zero) simp_all
          then show ?thesis unfolding h h0
            by (simp add: take_dice_no_fill roll_again_or_bank_no_bonus)
        qed
      qed
    qed
  qed
qed

lemma turn_iter_no_bonus:
  assumes "fills s = 0" "fills (state_of (turn_iter ops i s)) = 0"
  shows "turn_iter ops i (no_bonus s) = map_outcome no_bonus (turn_iter ops i s)"
proof -
  obtain rl r1 where rl: "roll ops (rng (game s)) (dice_left s) = (rl, r1)"
    by (cases "roll ops (rng (game s)) (dice_left s)")
  obtain sc bd where sc: "score_dice rl = (sc, bd)" by (cases "score_dice rl")
  let ?s1 = "s\<lparr>game := (game s)\<lparr>rng := r1\<rparr>\<rparr>"
  have n1: "no_bonus s\<lparr>game := (game s)\<lparr>rng := r1\<rparr>\<rparr> = no_bonus ?s1"
    by (simp add: no_bonus_updates)
  have f1: "fills ?s1 = 0" using assms(1) by simp
  show ?thesis
  proof (cases "sc = 0")
    case True
    then show ?thesis using rl sc
      by (simp add: turn_iter_def Let_def no_bonus_simps n1 bust_no_bonus)
  next
    case nz: False
    show ?thesis
    proof (cases "is_ai (player s) \<or> \<not> i")
      case True
      then have t: "turn_iter ops i s = auto_take sc bd ?s1"
        using rl sc nz by (auto simp: turn_iter_def Let_def)
      have t0: "turn_iter ops i (no_bonus s) = auto_take sc bd (no_bonus ?s1)"
        using True rl sc nz by (auto simp: turn_iter_def Let_def no_bonus_simps n1)
      show ?thesis unfolding t t0
        by (rule auto_take_no_bonus[OF f1]) (use assms(2) t in simp)
    next
      case False
      then have t: "turn_iter ops i s = human_take rl sc bd ?s1"
        using rl sc nz by (auto simp: turn_iter_def Let_def)
      have t0: "turn_iter ops i (no_bonus s) = human_take rl sc bd (no_bonus ?s1)"
        using False rl sc nz by (auto simp: turn_iter_def Let_def no_bonus_simps n1)
      show ?thesis unfolding t t0
        by (rule human_take_no_bonus[OF f1]) (use assms(2) t in simp)
    qed
  qed
qed

lemma turn_iter_fills_mono: "fills s \<le> fills (state_of (turn_iter ops i s))"
proof -
  from turn_iter_pick[of "rng (game s)" "dice_left s" "inputs s" "is_ai (player s)"
      "double_trouble (special s)" ops i]
  obtain pick where "follows_pick pick s (state_of (turn_iter ops i s))" by blast
  then show ?thesis
    by (cases pick) (auto simp: follows_pick_def take_dice_fills)
qed

lemma turn_loop_fills_mono:
  "turn_loop fuel ops i s = Some (r, sf) \<Longrightarrow> fills s \<le> fills sf"
proof (induction fuel arbitrary: s)
  case 0
  then show ?case by simp
next
  case (Suc fuel)
  show ?case
  proof (cases "turn_iter ops i s")
    case (Continue s1)
    with Suc.prems have "turn_loop fuel ops i s1 = Some (r, sf)" by simp
    then have "fills s1 \<le> fills sf" by (rule Suc.IH)
    moreover have "fills s \<le> fills s1" using turn_iter_fills_mono[of s ops i] Continue by simp
    ultimately show ?thesis by simp
  next
    case (Done r1 s1)
    with Suc.prems have "sf = s1" by simp
    then show ?thesis using turn_iter_fills_mono[of s ops i] Done by simp
  qed
qed

lemma turn_loop_no_bonus:
  "fills s = 0 \<Longrightarrow> turn_loop fuel ops i s = Some (r, sf) \<Longrightarrow> fills sf = 0 \<Longrightarrow>
   turn_loop fuel ops i (no_bonus s) = Some (r, no_bonus sf)"
proof (induction fuel arbitrary: s)
  case 0
  then show ?case by simp
next
  case (Suc fuel)
  show ?case
  proof (cases "turn_iter ops i s")
    case (Continue s1)
    with Suc.prems have l: "turn_loop fuel ops i s1 = Some (r, sf)" by simp
    have "fills s \<le> fills s1" using turn_iter_fills_mono[of s ops i] Continue by simp
    moreover have "fills s1 \<le> fills sf" using l by (rule turn_loop_fills_mono)
    ultimately have f1: "fills s1 = 0" using Suc.prems by simp
    then have "turn_iter ops i (no_bonus s) = Continue (no_bonus s1)"
      using turn_iter_no_bonus[of s ops i] Suc.prems(1) Continue by simp
    moreover have "turn_loop fuel ops i (no_bonus s1) = Some (r, no_bonus sf)"
      using f1 l Suc.prems(3) by (rule Suc.IH)
    ultimately show ?thesis by simp
  next
    case (Done r1 s1)
    with Suc.prems have e: "r1 = r" "s1 = sf" by simp_all
    then have "turn_iter ops i (no_bonus s) = Done r (no_bonus sf)"
      using turn_iter_no_bonus[of s ops i] Suc.prems Done by simp
    then show ?thesis by simp
  qed
qed



lemma start_turn_bonus_inv: "bonus_inv (start_turn g p ins (special_state_of c))"
  by (cases c) (simp_all add: bonus_inv_def start_turn_def no_special_def)

lemma turn_loop_without_bonus:
  assumes "fills s = 0" "ended_without_fill (turn_loop fuel ops i s)"
  shows "turn_loop fuel ops i (no_bonus s) = without_bonus (turn_loop fuel ops i s)"
proof -
  from assms(2) obtain r sf where l: "turn_loop fuel ops i s = Some (r, sf)" and f: "fills sf = 0"
    by (auto simp: ended_without_fill_def split: option.splits)
  from turn_loop_no_bonus[OF assms(1) l f] show ?thesis
    by (simp add: l without_bonus_def)
qed

lemma summary_without_bonus: "summary (without_bonus res) = summary res"
  by (simp add: summary_def without_bonus_def no_bonus_simps split: option.splits prod.splits)

lemma bust_result:
  "result_of (bust i s) = Some (if i \<and> \<not> is_ai (player s) \<and> ack (inputs s) = None then Inl EOFError else Inr 0)"
  "points (player (state_of (bust i s))) = points (player s) + (if must_bust (special s) then turn_points s else 0)"
  by (auto simp: bust_def Let_def credit_def split: option.splits)

lemma turn_iter_bust:
  assumes "fst (score_dice (fst (roll ops (rng (game s)) (dice_left s)))) = 0"
  shows "turn_iter ops i s = bust i (s\<lparr>game := (game s)\<lparr>rng := snd (roll ops (rng (game s)) (dice_left s))\<rparr>\<rparr>)"
  using assms by (simp add: turn_iter_def Let_def split_beta)

lemma turn_iter_auto:
  assumes "is_ai (player s) \<or> \<not> i"
    and "fst (score_dice (fst (roll ops (rng (game s)) (dice_left s)))) \<noteq> 0"
  shows "turn_iter ops i s =
     auto_take (fst (score_dice (fst (roll ops (rng (game s)) (dice_left s)))))
        (snd (score_dice (fst (roll ops (rng (game s)) (dice_left s)))))
        (s\<lparr>game := (game s)\<lparr>rng := snd (roll ops (rng (game s)) (dice_left s))\<rparr>\<rparr>)"
  using assms by (auto simp: turn_iter_def Let_def split_beta)

lemma auto_take_result:
  "result_of (auto_take sc bd s)
     = (if is_ai (player s) \<and> turn_points (take_dice sc (counter_total bd) s) \<ge> ai_threshold_points (game s)
        then Some (Inr (turn_points (take_dice sc (counter_total bd) s))) else None)"
  "points (player (state_of (auto_take sc bd s)))
     = points (player s)
       + (if is_ai (player s) \<and> turn_points (take_dice sc (counter_total bd) s) \<ge> ai_threshold_points (game s)
          then turn_points (take_dice sc (counter_total bd) s)
               + (if bonus (special s) \<noteq> 0 \<and> fills (take_dice sc (counter_total bd) s) > 0
                  then bonus (special s) else 0)
          else 0)"
  by (simp_all add: auto_take_def Let_def credit_simps take_dice_frame take_dice_special_fields)

lemma ai_pass_turn_iter:
  assumes ai: "is_ai (player s)"
    and sc: "fst (score_dice (fst (roll ops (rng (game s)) (dice_left s)))) \<noteq> 0"
  shows "ai_pass s (fst (score_dice (fst (roll ops (rng (game s)) (dice_left s)))))
           (counter_total (snd (score_dice (fst (roll ops (rng (game s)) (dice_left s))))))
           (turn_iter ops i s)"
proof -
  have a: "is_ai (player s) \<or> \<not> i" using ai by simp
  show ?thesis
    unfolding turn_iter_auto[OF a sc] ai_pass_def Let_def
    using ai by (simp add: auto_take_result state_of_auto_take take_dice_simps)
qed

lemma counter_total_keys:
  "distinct (map fst c) \<Longrightarrow> set (map fst c) \<subseteq> set ks \<Longrightarrow> distinct ks \<Longrightarrow>
   counter_total c = (\<Sum>k\<leftarrow>ks. counter_get c k 0)"
proof (induction c)
  case Nil
  then show ?case by (simp add: counter_total_def counter_get_def)
next
  case (Cons kv c)
  obtain k v where kv: "kv = (k, v)" by (cases kv)
  from Cons.prems kv have k: "k \<in> set ks" "k \<notin> fst ` set c" and d: "distinct (map fst c)"
    and sub: "set (map fst c) \<subseteq> set ks" by auto
  have g0: "counter_get c k 0 = 0"
    using k(2) by (simp add: counter_get_def map_of_eq_None_iff[THEN iffD2])
  have "(\<Sum>k'\<leftarrow>ks. counter_get (kv # c) k' 0) = (\<Sum>k'\<in>set ks. counter_get (kv # c) k' 0)"
    using Cons.prems(3) by (simp add: sum_list_distinct_conv_sum_set)
  also have "\<dots> = (\<Sum>k'\<in>set ks. (if k' = k then v else 0) + counter_get c k' 0)"
    by (rule sum.cong) (auto simp: kv counter_get_def g0[unfolded counter_get_def])
  also have "\<dots> = (\<Sum>k'\<in>set ks. (if k' = k then v else 0)) + (\<Sum>k'\<in>set ks. counter_get c k' 0)"
    by (simp add: sum.distrib)
  also have "(\<Sum>k'\<in>set ks. (if k' = k then v else 0)) = v"
    using k(1) by simp
  also have "(\<Sum>k'\<in>set ks. counter_get c k' 0) = (\<Sum>k'\<leftarrow>ks. counter_get c k' 0)"
    using Cons.prems(3) by (simp add: sum_list_distinct_conv_sum_set)
  also have "\<dots> = counter_total c"
    using Cons.IH[OF d sub Cons.prems(3)] by simp
  finally show ?case by (simp add: counter_total_def kv)
qed

lemma good_keys_add: "good_keys c \<Longrightarrow> k \<in> {1, 2, 3, 4, 5, 6} \<Longrightarrow> good_keys (counter_add c k n)"
  unfolding good_keys_def counter_add_def counter_set_def
  by (simp add: distinct_update update_keys)

lemma good_keys_three:
  "good_keys used \<Longrightarrow> face \<in> {1, 2, 3, 4, 5, 6} \<Longrightarrow>
   three_of_a_kind face (cnt, score, used) = (cnt', score', used') \<Longrightarrow> good_keys used'"
  by (auto simp: three_of_a_kind_def Let_def good_keys_add split: if_splits)

lemma good_keys_fold_three:
  "good_keys used \<Longrightarrow> set fs \<subseteq> {1, 2, 3, 4, 5, 6} \<Longrightarrow>
   fold three_of_a_kind fs (cnt, score, used) = (cnt', score', used') \<Longrightarrow> good_keys used'"
proof (induction fs arbitrary: cnt score used)
  case Nil
  then show ?case by simp
next
  case (Cons f fs)
  obtain c1 s1 u1 where st: "three_of_a_kind f (cnt, score, used) = (c1, s1, u1)"
    by (cases "three_of_a_kind f (cnt, score, used)") auto
  from Cons.prems have f: "f \<in> {1, 2, 3, 4, 5, 6}" and fs: "set fs \<subseteq> {1, 2, 3, 4, 5, 6}" by auto
  have "good_keys u1" using good_keys_three[OF Cons.prems(1) f st] .
  moreover from Cons.prems(3) st have "fold three_of_a_kind fs (c1, s1, u1) = (cnt', score', used')"
    by simp
  ultimately show ?case using Cons.IH fs by blast
qed

lemma good_keys_singles:
  "good_keys used \<Longrightarrow> face \<in> {1, 2, 3, 4, 5, 6} \<Longrightarrow>
   singles face val (cnt, score, used) = (cnt', score', used') \<Longrightarrow> good_keys used'"
  by (auto simp: singles_def good_keys_add split: if_splits)

lemma good_keys_score_dice: "good_keys (snd (score_dice dice))"
proof -
  obtain c1 s1 u1 where f: "fold three_of_a_kind [1, 2, 3, 4, 5, 6] (Counter dice, 0, []) = (c1, s1, u1)"
    by (cases "fold three_of_a_kind [1, 2, 3, 4, 5, 6] (Counter dice, 0, [])") auto
  obtain c2 s2 u2 where g: "singles 1 100 (c1, s1, u1) = (c2, s2, u2)"
    by (cases "singles 1 100 (c1, s1, u1)") auto
  obtain c3 s3 u3 where h: "singles 5 50 (c2, s2, u2) = (c3, s3, u3)"
    by (cases "singles 5 50 (c2, s2, u2)") auto
  have "good_keys []" by (simp add: good_keys_def)
  then have "good_keys u1" by (rule good_keys_fold_three[OF _ _ f]) simp
  then have "good_keys u2" by (rule good_keys_singles[OF _ _ g]) simp
  then have "good_keys u3" by (rule good_keys_singles[OF _ _ h]) simp
  then show ?thesis unfolding score_dice_def f g h by simp
qed

lemma counter_total_score_dice:
  "counter_total (snd (score_dice dice))
     = spec_used_count dice"
proof -
  have "counter_total (snd (score_dice dice))
      = (\<Sum>k\<leftarrow>[1, 2, 3, 4, 5, 6]. counter_get (snd (score_dice dice)) k 0)"
    using good_keys_score_dice[of dice] unfolding good_keys_def
    by (intro counter_total_keys) simp_all
  also have "\<dots> = spec_used_count dice"
    by (simp add: score_dice_used spec_used_count_def)
  finally show ?thesis .
qed

lemma ai_iter_progress:
  assumes ai: "is_ai (player s)" and b: "0 \<le> bonus (special s)"
    and c: "turn_iter ops i s = Continue s1"
  shows "is_ai (player s1)" "bonus (special s1) = bonus (special s)"
    "ai_threshold_points (game s1) = ai_threshold_points (game s)"
    "turn_points s < turn_points s1" "turn_points s1 < ai_threshold_points (game s)"
proof -
  let ?sc = "fst (score_dice (fst (roll ops (rng (game s)) (dice_left s))))"
  let ?bd = "snd (score_dice (fst (roll ops (rng (game s)) (dice_left s))))"
  let ?s0 = "s\<lparr>game := (game s)\<lparr>rng := snd (roll ops (rng (game s)) (dice_left s))\<rparr>\<rparr>"
  have nz: "?sc \<noteq> 0"
  proof
    assume "?sc = 0"
    from turn_iter_bust[OF this, of i] c have "bust i ?s0 = Continue s1" by simp
    then have "result_of (bust i ?s0) = None" by simp
    then show False by (simp add: bust_result)
  qed
  have pos: "0 < ?sc" using nz score_dice_nonneg[of "fst (roll ops (rng (game s)) (dice_left s))"] by simp
  have a: "is_ai (player s) \<or> \<not> i" using ai by simp
  have t: "turn_iter ops i s = auto_take ?sc ?bd ?s0" by (rule turn_iter_auto[OF a nz])
  from ai_pass_turn_iter[OF ai nz, of i] c
  have p: "ai_pass s ?sc (counter_total ?bd) (Continue s1)" by simp
  from t c have s1: "s1 = take_dice ?sc (counter_total ?bd) ?s0"
    by (simp add: auto_take_def Let_def split: if_splits)
  show "is_ai (player s1)" using ai by (simp add: s1 take_dice_frame)
  show "bonus (special s1) = bonus (special s)" by (simp add: s1 take_dice_special_fields)
  show "ai_threshold_points (game s1) = ai_threshold_points (game s)" by (simp add: s1 take_dice_frame)
  show "turn_points s < turn_points s1" using pos b by (simp add: s1 take_dice_turn_points)
  show "turn_points s1 < ai_threshold_points (game s)"
    using p by (auto simp: ai_pass_def Let_def split: if_splits)
qed

lemma ai_turn_ends_within:
  "is_ai (player s) \<Longrightarrow> 0 \<le> bonus (special s) \<Longrightarrow>
   nat (ai_threshold_points (game s) - turn_points s) \<le> n \<Longrightarrow>
   \<exists>res. turn_loop (Suc n) ops i s = Some res"
proof (induction n arbitrary: s)
  case 0
  show ?case
  proof (cases "turn_iter ops i s")
    case (Continue s1)
    from ai_iter_progress(4,5)[OF "0.prems"(1,2) Continue] "0.prems"(3) show ?thesis by simp
  next
    case (Done r s1)
    then show ?thesis by simp
  qed
next
  case (Suc n)
  show ?case
  proof (cases "turn_iter ops i s")
    case (Continue s1)
    note P = ai_iter_progress[OF Suc.prems(1,2) Continue]
    have "nat (ai_threshold_points (game s1) - turn_points s1) \<le> n"
      using P(3,4) Suc.prems(3) by simp
    with P(1,2) Suc.prems(2) have "\<exists>res. turn_loop (Suc n) ops i s1 = Some res"
      by (intro Suc.IH) simp_all
    then show ?thesis using Continue by simp
  next
    case (Done r s1)
    then show ?thesis by simp
  qed
qed



section \<open>Properties of the deck and of the match\<close>

lemma seed_CardDeckSpecial_init: "seed (CardDeckSpecial_init ops sd) = sd"
  by (simp add: CardDeckSpecial_init_def split_beta)

lemma length_full_deck: "length full_deck = 20"
  by (simp add: full_deck_def)

lemma draw_partly_dealt:
  assumes len: "length (cards (CardDeckSpecial_init ops sd)) = 20" and p: "p \<le> 20"
  shows "draw ops ((CardDeckSpecial_init ops sd)\<lparr>cards := take (20 - p) (cards (CardDeckSpecial_init ops sd))\<rparr>)
     = (Inr (rev (cards (CardDeckSpecial_init ops sd)) ! (p mod 20)),
        (CardDeckSpecial_init ops sd)\<lparr>cards := take (20 - (p mod 20 + 1)) (cards (CardDeckSpecial_init ops sd))\<rparr>)"
proof -
  define D where "D = CardDeckSpecial_init ops sd"
  define S where "S = cards D"
  have len': "length S = 20" using len by (simp add: S_def D_def)
  have ne: "S \<noteq> []" using len' by auto
  have sd: "seed D = sd" by (simp add: D_def seed_CardDeckSpecial_init)
  have goal: "draw ops (D\<lparr>cards := take (20 - p) S\<rparr>)
     = (Inr (rev S ! (p mod 20)), D\<lparr>cards := take (20 - (p mod 20 + 1)) S\<rparr>)"
  proof (cases "p = 20")
    case True
    have "draw ops (D\<lparr>cards := take (20 - p) S\<rparr>) = (Inr (last S), D\<lparr>cards := butlast S\<rparr>)"
      using True ne sd by (simp add: draw_def Let_def D_def[symmetric] S_def[symmetric])
    moreover have "last S = rev S ! (p mod 20)"
      using True ne len' by (simp add: last_conv_nth rev_nth)
    moreover have "butlast S = take (20 - (p mod 20 + 1)) S"
      using True len' by (simp add: butlast_conv_take)
    ultimately show ?thesis by simp
  next
    case False
    with p have lt: "p < 20" by simp
    let ?c = "take (20 - p) S"
    have cne: "?c \<noteq> []" using lt len' by auto
    have "draw ops (D\<lparr>cards := ?c\<rparr>) = (Inr (last ?c), D\<lparr>cards := butlast ?c\<rparr>)"
      using cne by (simp add: draw_def Let_def)
    moreover have "last ?c = rev S ! (p mod 20)"
      using lt len' cne by (simp add: last_conv_nth rev_nth)
    moreover have "butlast ?c = take (20 - (p mod 20 + 1)) S"
      using lt len' by (simp add: butlast_take)
    ultimately show ?thesis by simp
  qed
  then show ?thesis by (simp add: D_def S_def)
qed

lemma draw_many_partly_dealt:
  assumes len: "length (cards (CardDeckSpecial_init ops sd)) = 20"
  shows "p \<le> 20 \<Longrightarrow>
     fst (draw_many ops k ((CardDeckSpecial_init ops sd)\<lparr>cards := take (20 - p) (cards (CardDeckSpecial_init ops sd))\<rparr>))
     = Inr (map (\<lambda>j. rev (cards (CardDeckSpecial_init ops sd)) ! ((p + j) mod 20)) [0..<k])"
proof (induction k arbitrary: p)
  case 0
  then show ?case by simp
next
  case (Suc k)
  let ?S = "cards (CardDeckSpecial_init ops sd)"
  have p': "p mod 20 + 1 \<le> 20" by (simp add: Suc_leI)
  have m: "\<And>j. (p mod 20 + 1 + j) mod 20 = (p + Suc j) mod 20"
    by (metis Suc_eq_plus1 add_Suc_right add_Suc_shift mod_add_left_eq)
  let ?next = "(CardDeckSpecial_init ops sd)\<lparr>cards := take (20 - (p mod 20 + 1)) ?S\<rparr>"
  have IH: "fst (draw_many ops k ?next) = Inr (map (\<lambda>j. rev ?S ! ((p mod 20 + 1 + j) mod 20)) [0..<k])"
    by (rule Suc.IH[OF p'])
  have "fst (draw_many ops (Suc k) ((CardDeckSpecial_init ops sd)\<lparr>cards := take (20 - p) ?S\<rparr>))
      = Inr (rev ?S ! (p mod 20) # map (\<lambda>j. rev ?S ! ((p mod 20 + 1 + j) mod 20)) [0..<k])"
    unfolding draw_many.simps draw_partly_dealt[OF len Suc.prems]
    using IH by (cases "draw_many ops k ?next") (auto split: sum.splits)
  also have "rev ?S ! (p mod 20) # map (\<lambda>j. rev ?S ! ((p mod 20 + 1 + j) mod 20)) [0..<k]
      = map (\<lambda>j. rev ?S ! ((p + j) mod 20)) [0..<Suc k]"
    unfolding map_upt_Suc m by simp
  finally show ?case .
qed

lemma draw_never_fails_general:
  assumes len: "length (cards (CardDeckSpecial_init ops (seed d))) = 20"
  shows "\<exists>c. fst (draw ops d) = Inr c"
  using len by (auto simp: draw_def Let_def)

lemma mset_rotate1: "mset (rotate1 xs) = mset xs"
  by (cases xs) simp_all

lemma mset_rotate: "mset (rotate n xs) = mset xs"
  by (induction n) (simp_all add: mset_rotate1)

lemma mset_scripted_deck: "mset (cards (CardDeckSpecial_init (scripted script) sd)) = mset full_deck"
  by (cases script) (simp_all add: CardDeckSpecial_init_def scripted_def mset_rotate)

lemma take_dice_inputs: "take_dice ts tc (s\<lparr>inputs := x\<rparr>) = (take_dice ts tc s)\<lparr>inputs := x\<rparr>"
  by (simp add: take_dice_def Let_def)

lemma credit_inputs: "credit n (s\<lparr>inputs := x\<rparr>) = (credit n s)\<lparr>inputs := x\<rparr>"
  by (simp add: credit_def)

lemma auto_take_inputs:
  "auto_take sc bd (s\<lparr>inputs := x\<rparr>) = map_outcome (\<lambda>t. t\<lparr>inputs := x\<rparr>) (auto_take sc bd s)"
  by (simp add: auto_take_def Let_def take_dice_inputs credit_inputs take_dice_simps credit_simps)

lemma bust_inputs:
  "is_ai (player s) \<or> \<not> i \<Longrightarrow>
   bust i (s\<lparr>inputs := x\<rparr>) = map_outcome (\<lambda>t. t\<lparr>inputs := x\<rparr>) (bust i s)"
  by (auto simp: bust_def Let_def credit_inputs credit_simps)

lemma turn_iter_inputs:
  assumes "is_ai (player s) \<or> \<not> i"
  shows "turn_iter ops i (s\<lparr>inputs := x\<rparr>) = map_outcome (\<lambda>t. t\<lparr>inputs := x\<rparr>) (turn_iter ops i s)"
proof -
  let ?r = "snd (roll ops (rng (game s)) (dice_left s))"
  let ?s1 = "s\<lparr>game := (game s)\<lparr>rng := ?r\<rparr>\<rparr>"
  have u: "s\<lparr>inputs := x, game := (game s)\<lparr>rng := ?r\<rparr>\<rparr> = ?s1\<lparr>inputs := x\<rparr>" by simp
  have a1: "is_ai (player ?s1) \<or> \<not> i" using assms by simp
  show ?thesis
  proof (cases "fst (score_dice (fst (roll ops (rng (game s)) (dice_left s)))) = 0")
    case True
    then show ?thesis using assms
      by (simp add: turn_iter_def Let_def split_beta u bust_inputs[OF a1])
  next
    case False
    then show ?thesis using assms
      by (auto simp: turn_iter_def Let_def split_beta u auto_take_inputs)
  qed
qed

lemma turn_iter_keeps_player_kind:
  assumes "is_ai (player s) \<or> \<not> i"
  shows "is_ai (player (state_of (turn_iter ops i s))) = is_ai (player s)"
proof (cases "fst (score_dice (fst (roll ops (rng (game s)) (dice_left s)))) = 0")
  case True
  then show ?thesis
    by (simp add: turn_iter_def Let_def split_beta bust_def credit_def split: option.splits)
next
  case False
  then show ?thesis using assms
    by (auto simp: turn_iter_def Let_def split_beta auto_take_def credit_def take_dice_frame)
qed

lemma turn_loop_inputs:
  "is_ai (player s) \<or> \<not> i \<Longrightarrow>
   turn_loop fuel ops i (s\<lparr>inputs := x\<rparr>) = unread x (turn_loop fuel ops i s)"
proof (induction fuel arbitrary: s)
  case 0
  then show ?case by (simp add: unread_def)
next
  case (Suc fuel)
  note ti = turn_iter_inputs[OF Suc.prems, of ops x]
  show ?case
  proof (cases "turn_iter ops i s")
    case (Continue s1)
    have "is_ai (player s1) \<or> \<not> i"
      using turn_iter_keeps_player_kind[OF Suc.prems, of ops] Suc.prems Continue by auto
    then have "turn_loop fuel ops i (s1\<lparr>inputs := x\<rparr>) = unread x (turn_loop fuel ops i s1)"
      by (rule Suc.IH)
    then show ?thesis using ti Continue by simp
  next
    case (Done r s1)
    then show ?thesis using ti by (simp add: unread_def)
  qed
qed

lemma start_turn_inputs: "start_turn g p x sp = (start_turn g p [] sp)\<lparr>inputs := x\<rparr>"
  by (simp add: start_turn_def)

lemma play_turn_inputs:
  assumes "is_ai p \<or> \<not> i"
  shows "play_turn fuel ops i g p x = unread x (play_turn fuel ops i g p [])"
proof (cases "draw ops (card_deck g)")
  case (Pair res d)
  show ?thesis
  proof (cases res)
    case (Inl e)
    then show ?thesis using Pair
      by (simp add: play_turn_def unread_def start_turn_def)
  next
    case (Inr c)
    let ?s0 = "start_turn (g\<lparr>card_deck := d\<rparr>) p [] (special_state_of c)"
    have st: "start_turn (g\<lparr>card_deck := d\<rparr>) p x (special_state_of c) = ?s0\<lparr>inputs := x\<rparr>"
      by (rule start_turn_inputs)
    have ai: "is_ai (player ?s0) \<or> \<not> i" using assms by (simp add: start_turn_def)
    show ?thesis
    proof (cases "no_dice (special_state_of c)")
      case True
      then show ?thesis using Pair Inr assms
        by (auto simp: play_turn_def Let_def unread_def start_turn_def)
    next
      case False
      then have "play_turn fuel ops i g p x = turn_loop fuel ops i (?s0\<lparr>inputs := x\<rparr>)"
        using Pair Inr by (simp add: play_turn_def Let_def start_turn_def)
      moreover have "play_turn fuel ops i g p [] = turn_loop fuel ops i ?s0"
        using False Pair Inr by (simp add: play_turn_def Let_def start_turn_def)
      ultimately show ?thesis using turn_loop_inputs[OF ai, of fuel ops x] by simp
    qed
  qed
qed

lemma turn_loop_keeps_player_kind:
  "is_ai (player s) \<or> \<not> i \<Longrightarrow> turn_loop fuel ops i s = Some (r, sf) \<Longrightarrow>
   is_ai (player sf) = is_ai (player s)"
proof (induction fuel arbitrary: s)
  case 0
  then show ?case by simp
next
  case (Suc fuel)
  note k = turn_iter_keeps_player_kind[OF Suc.prems(1), of ops]
  show ?case
  proof (cases "turn_iter ops i s")
    case (Continue s1)
    with k have e: "is_ai (player s1) = is_ai (player s)" by simp
    with Suc.prems(1) have "is_ai (player s1) \<or> \<not> i" by simp
    moreover from Suc.prems(2) Continue have "turn_loop fuel ops i s1 = Some (r, sf)" by simp
    ultimately have "is_ai (player sf) = is_ai (player s1)" by (rule Suc.IH)
    with e show ?thesis by simp
  next
    case (Done r1 s1)
    with Suc.prems(2) have "sf = s1" by simp
    with k Done show ?thesis by simp
  qed
qed

lemma play_turn_keeps_player_kind:
  assumes "is_ai p \<or> \<not> i" and "play_turn fuel ops i g p x = Some (r, s)"
  shows "is_ai (player s) = is_ai p"
proof (cases "draw ops (card_deck g)")
  case (Pair res d)
  show ?thesis
  proof (cases res)
    case (Inl e)
    then show ?thesis using Pair assms(2)
      by (auto simp: play_turn_def start_turn_def)
  next
    case (Inr c)
    let ?s0 = "start_turn (g\<lparr>card_deck := d\<rparr>) p x (special_state_of c)"
    show ?thesis
    proof (cases "no_dice (special_state_of c)")
      case True
      then show ?thesis using Pair Inr assms
        by (auto simp: play_turn_def Let_def start_turn_def split: if_splits option.splits)
    next
      case False
      then have "turn_loop fuel ops i ?s0 = Some (r, s)"
        using Pair Inr assms(2) by (simp add: play_turn_def Let_def start_turn_def)
      moreover have "is_ai (player ?s0) \<or> \<not> i" using assms(1) by (simp add: start_turn_def)
      ultimately have "is_ai (player s) = is_ai (player ?s0)"
        by (rule turn_loop_keeps_player_kind[rotated])
      then show ?thesis by (simp add: start_turn_def)
    qed
  qed
qed

lemma play_turn_no_inputs:
  assumes "is_ai p \<or> \<not> i" and "play_turn fuel ops i g p [] = Some (r, s)"
  shows "inputs s = []"
proof -
  from play_turn_inputs[OF assms(1), of fuel ops g "[]"] assms(2)
  have "Some (r, s) = unread [] (Some (r, s))" by simp
  then have "s = s\<lparr>inputs := []\<rparr>" by (simp add: unread_def)
  then have "inputs s = inputs (s\<lparr>inputs := []\<rparr>)" by simp
  then show ?thesis by simp
qed

lemma run_inputs:
  "\<not> i \<or> list_all is_ai (players g) \<Longrightarrow>
   run fuel ops i g x k = unread_match x (run fuel ops i g [] k)"
proof (induction fuel arbitrary: g k)
  case 0
  then show ?case by (simp add: unread_match_def)
next
  case (Suc fuel)
  show ?case
  proof (cases "k \<ge> length (players g)")
    case True
    then show ?thesis using Suc.IH[OF Suc.prems, of 0] by simp
  next
    case False
    then have kl: "k < length (players g)" by simp
    let ?p = "players g ! k"
    have ai: "is_ai ?p \<or> \<not> i"
      using Suc.prems kl by (auto simp: list_all_length)
    note pi = play_turn_inputs[OF ai, of fuel ops g x]
    show ?thesis
    proof (cases "play_turn fuel ops i g ?p []")
      case None
      then show ?thesis using pi kl by (simp add: unread_def unread_match_def)
    next
      case (Some a)
      obtain r s where a: "a = (r, s)" by (cases a)
      from Some a have pt0: "play_turn fuel ops i g ?p [] = Some (r, s)" by simp
      with pi have ptx: "play_turn fuel ops i g ?p x = Some (r, s\<lparr>inputs := x\<rparr>)"
        by (simp add: unread_def)
      have ins0: "inputs s = []" by (rule play_turn_no_inputs[OF ai pt0])
      have kind: "is_ai (player s) = is_ai ?p" by (rule play_turn_keeps_player_kind[OF ai pt0])
      let ?g1 = "(game s)\<lparr>players := (players g)[k := player s]\<rparr>"
      have g1: "\<not> i \<or> list_all is_ai (players ?g1)"
        using Suc.prems kind kl by (auto simp: list_all_length nth_list_update)
      show ?thesis
      proof (cases r)
        case (Inl e)
        then show ?thesis using pt0 ptx kl ins0
          by (simp add: Let_def unread_match_def)
      next
        case (Inr v)
        show ?thesis
        proof (cases "points (player s) \<ge> points_to_win ?g1")
          case True
          then show ?thesis using pt0 ptx kl ins0 Inr
            by (simp add: Let_def unread_match_def)
        next
          case False
          have "run (Suc fuel) ops i g x k = run fuel ops i ?g1 x (Suc k)"
            using pt0 ptx kl ins0 Inr False by (simp add: Let_def)
          moreover have "run (Suc fuel) ops i g [] k = run fuel ops i ?g1 [] (Suc k)"
            using pt0 kl ins0 Inr False by (simp add: Let_def)
          ultimately show ?thesis using Suc.IH[OF g1, of "Suc k"] by simp
        qed
      qed
    qed
  qed
qed

lemma game_human_take: "card_deck (game (state_of (human_take rl sc bd s))) = card_deck (game s)"
  by (simp add: human_take_def Let_def bank_def credit_def state_of_roll_again_or_bank take_dice_frame
      split: option.splits prod.splits list.splits)

lemma turn_iter_keeps_deck: "card_deck (game (state_of (turn_iter ops i s))) = card_deck (game s)"
  by (simp add: turn_iter_def Let_def split_beta state_of_bust state_of_auto_take game_human_take)

lemma turn_loop_keeps_deck:
  "turn_loop fuel ops i s = Some (r, sf) \<Longrightarrow> card_deck (game sf) = card_deck (game s)"
proof (induction fuel arbitrary: s)
  case 0
  then show ?case by simp
next
  case (Suc fuel)
  show ?case
  proof (cases "turn_iter ops i s")
    case (Continue s1)
    with Suc.prems have "turn_loop fuel ops i s1 = Some (r, sf)" by simp
    then have "card_deck (game sf) = card_deck (game s1)" by (rule Suc.IH)
    then show ?thesis using turn_iter_keeps_deck[of ops i s] Continue by simp
  next
    case (Done r1 s1)
    with Suc.prems have "sf = s1" by simp
    then show ?thesis using turn_iter_keeps_deck[of ops i s] Done by simp
  qed
qed

lemma play_turn_draws_once:
  assumes "play_turn fuel ops i g p x = Some (r, s)"
  shows "card_deck (game s) = snd (draw ops (card_deck g))"
proof (cases "draw ops (card_deck g)")
  case (Pair res d)
  show ?thesis
  proof (cases res)
    case (Inl e)
    then show ?thesis using Pair assms by (auto simp: play_turn_def start_turn_def)
  next
    case (Inr c)
    show ?thesis
    proof (cases "no_dice (special_state_of c)")
      case True
      then show ?thesis using Pair Inr assms
        by (auto simp: play_turn_def Let_def start_turn_def split: if_splits option.splits)
    next
      case False
      then have "turn_loop fuel ops i (start_turn (g\<lparr>card_deck := d\<rparr>) p x (special_state_of c)) = Some (r, s)"
        using Pair Inr assms by (simp add: play_turn_def Let_def start_turn_def)
      from turn_loop_keeps_deck[OF this] show ?thesis using Pair by (simp add: start_turn_def)
    qed
  qed
qed

lemma human_take_spec_pick:
  assumes sd: "score_dice rl = (sc, bd)"
  shows "follows_pick (spec_human_pick rl (inputs s)) s (state_of (human_take rl sc bd s))"
proof (cases "prompt_until [''k'', ''b'', ''c''] (inputs s)")
  case None
  then show ?thesis
    by (simp add: human_take_def follows_pick_def spec_human_pick_def)
next
  case (Some a)
  obtain choice rest where a: "a = (choice, rest)" by (cases a)
  have ct: "counter_total bd = spec_used_count rl" "sc = fst (score_dice rl)"
    using counter_total_score_dice[of rl] sd by simp_all
  show ?thesis
  proof (cases "choice = ''b''")
    case True
    then show ?thesis using Some a
      by (simp add: human_take_def bank_def credit_def Let_def follows_pick_def spec_human_pick_def)
  next
    case nb: False
    show ?thesis
    proof (cases "choice = ''k''")
      case True
      then have p: "spec_human_pick rl (inputs s) = Some (sc, counter_total bd)"
        using Some a ct by (simp add: spec_human_pick_def)
      show ?thesis unfolding p using True Some a
        by (simp add: human_take_def Let_def state_of_roll_again_or_bank take_dice_simps follows_pick_def)
    next
      case nk: False
      show ?thesis
      proof (cases rest)
        case Nil
        then show ?thesis using Some a nb nk
          by (simp add: human_take_def Let_def follows_pick_def spec_human_pick_def)
      next
        case (Cons line rest')
        have p: "spec_human_pick rl (inputs s) = choose_indices rl line"
          using Some a nb nk Cons by (simp add: spec_human_pick_def)
        show ?thesis
        proof (cases "choose_indices rl line")
          case None
          then show ?thesis unfolding p using Some a nb nk Cons
            by (simp add: human_take_def Let_def follows_pick_def)
        next
          case (Some q)
          obtain ts tc where q: "q = (ts, tc)" by (cases q)
          note pu = \<open>prompt_until [''k'', ''b'', ''c''] (inputs s) = Some a\<close>
          show ?thesis unfolding p using pu a nb nk Cons Some q
            by (simp add: human_take_def Let_def state_of_roll_again_or_bank take_dice_simps follows_pick_def)
        qed
      qed
    qed
  qed
qed

lemma turn_iter_spec_pick:
  "follows_pick (spec_pick ops i s) s (state_of (turn_iter ops i s))"
proof -
  obtain rl r1 where rl: "roll ops (rng (game s)) (dice_left s) = (rl, r1)"
    by (cases "roll ops (rng (game s)) (dice_left s)")
  obtain sc bd where sc: "score_dice rl = (sc, bd)" by (cases "score_dice rl")
  have ro: "rolled ops s = rl" using rl by (simp add: rolled_def)
  have ct: "counter_total bd = spec_used_count rl"
    using counter_total_score_dice[of rl] sc by simp
  let ?s1 = "s\<lparr>game := (game s)\<lparr>rng := r1\<rparr>\<rparr>"
  show ?thesis
  proof (cases "sc = 0")
    case True
    then show ?thesis using rl sc ro
      by (simp add: turn_iter_def Let_def state_of_bust follows_pick_def spec_pick_def)
  next
    case nz: False
    show ?thesis
    proof (cases "i \<and> \<not> is_ai (player s)")
      case False
      then have p: "spec_pick ops i s = Some (sc, counter_total bd)"
        using nz sc ro ct by (auto simp: spec_pick_def)
      from False have "is_ai (player s) \<or> \<not> i" by blast
      then have ti: "turn_iter ops i s = auto_take sc bd ?s1"
        using rl sc nz by (auto simp: turn_iter_def Let_def)
      show ?thesis unfolding p ti
        by (simp add: state_of_auto_take take_dice_simps follows_pick_def)
    next
      case True
      then have p: "spec_pick ops i s = spec_human_pick rl (inputs ?s1)"
        using nz sc ro by (simp add: spec_pick_def)
      have ti: "turn_iter ops i s = human_take rl sc bd ?s1"
        using True rl sc nz by (simp add: turn_iter_def Let_def)
      have "follows_pick (spec_human_pick rl (inputs ?s1)) ?s1 (state_of (human_take rl sc bd ?s1))"
        by (rule human_take_spec_pick[OF sc])
      then show ?thesis unfolding p ti
        by (simp add: follows_pick_frame[of ?s1 s])
    qed
  qed
qed

lemma follows_pick_spec_take:
  assumes "bonus_inv s" "follows_pick pick s s'"
  shows "spec_take pick s s'"
proof (cases pick)
  case None
  with assms(2) show ?thesis by (simp add: follows_pick_def spec_take_def)
next
  case (Some q)
  obtain ts tc where q: "q = (ts, tc)" by (cases q)
  from assms(2) Some q have f: "turn_points s' = turn_points (take_dice ts tc s)"
    "fills s' = fills (take_dice ts tc s)" "dice_left s' = dice_left (take_dice ts tc s)"
    by (simp_all add: follows_pick_def)
  have b: "(if dice_left s - tc = 0 \<and> bonus (special s) \<noteq> 0 \<and> \<not> bonus_added (special s)
        then bonus (special s) else 0)
      = (if dice_left s - tc = 0 \<and> fills s = 0 then bonus (special s) else 0)"
    using assms(1) by (auto simp: bonus_inv_def)
  show ?thesis
    unfolding spec_take_def Some q f take_dice_turn_points take_dice_fills take_dice_dice_left b
    by simp
qed

lemma turn_iter_spec_take:
  "bonus_inv s \<Longrightarrow> spec_take (spec_pick ops i s) s (state_of (turn_iter ops i s))"
  by (rule follows_pick_spec_take[OF _ turn_iter_spec_pick])

section \<open>The claims about the turn\<close>

text \<open>
  C2. With the MustBust card a human's attempt to bank ought to be refused. The program
  accepts it at both prompts: after rolling 1 2 3 4 6 6 the answers \<open>k\<close> and \<open>b\<close> bank
  100 points, and so do \<open>k\<close>, \<open>r\<close> and then \<open>b\<close> at the first prompt of the next roll.
\<close>

theorem must_bust_bank_is_accepted:
  "summary (play_turn 1 (scripted []) True (table MustBust [1, 2, 3, 4, 6, 6]) human [''k'', ''b''])
     = Some (Inr 100, 100, 100, 0, 5)
   \<and> summary (play_turn 2 (scripted []) True (table MustBust [1, 2, 3, 4, 6, 6, 5, 2, 2, 3, 3]) human
        [''k'', ''r'', ''b''])
     = Some (Inr 100, 100, 100, 0, 5)"
  by code_simp

text \<open>
  C3. Every turn starts with the bonus not yet added and no fill. In every pass, of a human
  or of an AI, the dice taken are those of \<open>spec_pick\<close>, and the turn changes as the
  specification says: the bonus is added to the points of the turn at the moment the dice left
  reach 0 for the first time in the turn, and at no other moment; a later fill is counted and
  adds nothing. Put differently, the points after a pass are those of the same pass without the
  bonus card, plus the bonus if the pass made the first fill. A turn that ends (by banking, by
  a bust or by an error) without a fill ends exactly as it would without the bonus card, so
  no points it credits contain the bonus.
\<close>

theorem bonus_added_once_at_first_fill:
  "bonus_inv (start_turn g p ins (special_state_of c))
   \<and> (bonus_inv s \<longrightarrow>
        bonus_inv (state_of (turn_iter ops i s))
      \<and> spec_take (spec_pick ops i s) s (state_of (turn_iter ops i s))
      \<and> turn_points (state_of (turn_iter ops i s))
          = turn_points (state_of (turn_iter ops i (no_bonus s)))
            + bonus_now s (state_of (turn_iter ops i s)))
   \<and> (fills s = 0 \<longrightarrow> ended_without_fill (turn_loop fuel ops i s) \<longrightarrow>
        turn_loop fuel ops i (no_bonus s) = without_bonus (turn_loop fuel ops i s)
      \<and> summary (turn_loop fuel ops i (no_bonus s)) = summary (turn_loop fuel ops i s))"
proof -
  have "turn_loop fuel ops i (no_bonus s) = without_bonus (turn_loop fuel ops i s)
      \<and> summary (turn_loop fuel ops i (no_bonus s)) = summary (turn_loop fuel ops i s)"
    if "fills s = 0" "ended_without_fill (turn_loop fuel ops i s)"
    using turn_loop_without_bonus[OF that] by (simp add: summary_without_bonus)
  then show ?thesis
    using start_turn_bonus_inv[of g p ins c] turn_iter_bonus(1,3)[of s ops i]
      turn_iter_spec_take[of s ops i] by blast
qed

text \<open>
  C3, at concrete turns. A human in a game that is not interactive rolls 1 2 3 4 6 6 and then
  busts without a fill. An AI rolls 1 1 1 5 5 5, fills, and the pass adds 300. A human at the
  console keeps all of 1 1 1 5 5 2: five dice, one die left, no fill and no bonus, 1100
  points. A human keeps all of 1 1 1 5 5 5 twice: the first fill adds 300, the second adds
  nothing, 3300 points.
\<close>

theorem bonus_added_once_at_first_fill_witness:
  "bonus_inv (start_turn (table Bonus300 [1, 2, 3, 4, 6, 6, 2, 3, 4, 6, 6]) human [] (special_state_of Bonus300))
   \<and> fills (start_turn (table Bonus300 [1, 2, 3, 4, 6, 6, 2, 3, 4, 6, 6]) human [] (special_state_of Bonus300)) = 0
   \<and> ended_without_fill (turn_loop 2 (scripted []) False
        (start_turn (table Bonus300 [1, 2, 3, 4, 6, 6, 2, 3, 4, 6, 6]) human [] (special_state_of Bonus300)))
   \<and> turn_loop 2 (scripted []) False
        (no_bonus (start_turn (table Bonus300 [1, 2, 3, 4, 6, 6, 2, 3, 4, 6, 6]) human [] (special_state_of Bonus300)))
       = without_bonus (turn_loop 2 (scripted []) False
           (start_turn (table Bonus300 [1, 2, 3, 4, 6, 6, 2, 3, 4, 6, 6]) human [] (special_state_of Bonus300)))
   \<and> summary (turn_loop 2 (scripted []) False
        (no_bonus (start_turn (table Bonus300 [1, 2, 3, 4, 6, 6, 2, 3, 4, 6, 6]) human [] (special_state_of Bonus300))))
       = summary (turn_loop 2 (scripted []) False
           (start_turn (table Bonus300 [1, 2, 3, 4, 6, 6, 2, 3, 4, 6, 6]) human [] (special_state_of Bonus300)))
   \<and> summary (turn_loop 2 (scripted []) False
        (start_turn (table Bonus300 [1, 2, 3, 4, 6, 6, 2, 3, 4, 6, 6]) human [] (special_state_of Bonus300)))
       = Some (Inr 0, 100, 0, 0, 5)
   \<and> bonus_inv (state_of (turn_iter (scripted []) False
        (start_turn (table Bonus300 [1, 2, 3, 4, 6, 6, 2, 3, 4, 6, 6]) human [] (special_state_of Bonus300))))
   \<and> bonus_now (start_turn (table Bonus300 [1, 1, 1, 5, 5, 5]) robot [] (special_state_of Bonus300))
        (state_of (turn_iter (scripted []) False
           (start_turn (table Bonus300 [1, 1, 1, 5, 5, 5]) robot [] (special_state_of Bonus300)))) = 300
   \<and> turn_points (state_of (turn_iter (scripted []) False
           (start_turn (table Bonus300 [1, 1, 1, 5, 5, 5]) robot [] (special_state_of Bonus300))))
       = turn_points (state_of (turn_iter (scripted []) False
           (no_bonus (start_turn (table Bonus300 [1, 1, 1, 5, 5, 5]) robot [] (special_state_of Bonus300))))) + 300
   \<and> bonus_inv (start_turn (table Bonus300 [1, 1, 1, 5, 5, 2]) human [''k'', ''b''] (special_state_of Bonus300))
   \<and> spec_pick (scripted []) True
        (start_turn (table Bonus300 [1, 1, 1, 5, 5, 2]) human [''k'', ''b''] (special_state_of Bonus300))
       = Some (1100, 5)
   \<and> spec_take (Some (1100, 5))
        (start_turn (table Bonus300 [1, 1, 1, 5, 5, 2]) human [''k'', ''b''] (special_state_of Bonus300))
        (state_of (turn_iter (scripted []) True
           (start_turn (table Bonus300 [1, 1, 1, 5, 5, 2]) human [''k'', ''b''] (special_state_of Bonus300))))
   \<and> summary (play_turn 1 (scripted []) True (table Bonus300 [1, 1, 1, 5, 5, 2]) human [''k'', ''b''])
       = Some (Inr 1100, 1100, 1100, 0, 1)
   \<and> bonus_inv (start_turn (table Bonus300 [1, 1, 1, 5, 5, 5]) human [''k'', ''r''] (special_state_of Bonus300))
   \<and> spec_pick (scripted []) True
        (start_turn (table Bonus300 [1, 1, 1, 5, 5, 5]) human [''k'', ''r''] (special_state_of Bonus300))
       = Some (1500, 6)
   \<and> spec_take (Some (1500, 6))
        (start_turn (table Bonus300 [1, 1, 1, 5, 5, 5]) human [''k'', ''r''] (special_state_of Bonus300))
        (state_of (turn_iter (scripted []) True
           (start_turn (table Bonus300 [1, 1, 1, 5, 5, 5]) human [''k'', ''r''] (special_state_of Bonus300))))
   \<and> summary (play_turn 2 (scripted []) True (table Bonus300 [1, 1, 1, 5, 5, 5, 1, 1, 1, 5, 5, 5]) human
        [''k'', ''r'', ''k'', ''b''])
       = Some (Inr 3300, 3300, 3300, 2, 6)"
proof -
  let ?u = "start_turn (table Bonus300 [1, 1, 1, 5, 5, 2]) human [''k'', ''b''] (special_state_of Bonus300)"
  let ?v = "start_turn (table Bonus300 [1, 1, 1, 5, 5, 5]) human [''k'', ''r''] (special_state_of Bonus300)"
  have u1: "bonus_inv ?u" by code_simp
  have u2: "spec_pick (scripted []) True ?u = Some (1100, 5)" by code_simp
  have u3: "summary (play_turn 1 (scripted []) True (table Bonus300 [1, 1, 1, 5, 5, 2]) human [''k'', ''b''])
       = Some (Inr 1100, 1100, 1100, 0, 1)" by code_simp
  have v1: "bonus_inv ?v" by code_simp
  have v2: "spec_pick (scripted []) True ?v = Some (1500, 6)" by code_simp
  have v3: "summary (play_turn 2 (scripted []) True (table Bonus300 [1, 1, 1, 5, 5, 5, 1, 1, 1, 5, 5, 5]) human
        [''k'', ''r'', ''k'', ''b'']) = Some (Inr 3300, 3300, 3300, 2, 6)" by code_simp
  note U = bonus_added_once_at_first_fill[of "table Bonus300 []" human "[]" Bonus300 ?u "scripted []" True 2]
  note V = bonus_added_once_at_first_fill[of "table Bonus300 []" human "[]" Bonus300 ?v "scripted []" True 2]
  from U u1 have "spec_take (spec_pick (scripted []) True ?u) ?u (state_of (turn_iter (scripted []) True ?u))"
    by blast
  then have u4: "spec_take (Some (1100, 5)) ?u (state_of (turn_iter (scripted []) True ?u))"
    unfolding u2 .
  from V v1 have "spec_take (spec_pick (scripted []) True ?v) ?v (state_of (turn_iter (scripted []) True ?v))"
    by blast
  then have v4: "spec_take (Some (1500, 6)) ?v (state_of (turn_iter (scripted []) True ?v))"
    unfolding v2 .
  let ?s = "start_turn (table Bonus300 [1, 2, 3, 4, 6, 6, 2, 3, 4, 6, 6]) human [] (special_state_of Bonus300)"
  let ?t = "start_turn (table Bonus300 [1, 1, 1, 5, 5, 5]) robot [] (special_state_of Bonus300)"
  have h1: "bonus_inv ?s" by code_simp
  have h2: "fills ?s = 0" by code_simp
  have h3: "ended_without_fill (turn_loop 2 (scripted []) False ?s)" by code_simp
  have h4: "bonus_inv ?t" by code_simp
  have h5: "bonus_now ?t (state_of (turn_iter (scripted []) False ?t)) = 300" by code_simp
  note A = bonus_added_once_at_first_fill[of "table Bonus300 []" human "[]" Bonus300 ?s "scripted []" False 2]
  note B = bonus_added_once_at_first_fill[of "table Bonus300 []" human "[]" Bonus300 ?t "scripted []" False 2]
  from A h1 h2 h3 have a1: "turn_loop 2 (scripted []) False (no_bonus ?s)
      = without_bonus (turn_loop 2 (scripted []) False ?s)" by blast
  from A h1 h2 h3 have a3: "summary (turn_loop 2 (scripted []) False (no_bonus ?s))
      = summary (turn_loop 2 (scripted []) False ?s)" by blast
  have a4: "summary (turn_loop 2 (scripted []) False ?s) = Some (Inr 0, 100, 0, 0, 5)" by code_simp
  from A h1 have a2: "bonus_inv (state_of (turn_iter (scripted []) False ?s))" by blast
  from B h4 have "turn_points (state_of (turn_iter (scripted []) False ?t))
      = turn_points (state_of (turn_iter (scripted []) False (no_bonus ?t)))
        + bonus_now ?t (state_of (turn_iter (scripted []) False ?t))" by blast
  then have b: "turn_points (state_of (turn_iter (scripted []) False ?t))
      = turn_points (state_of (turn_iter (scripted []) False (no_bonus ?t))) + 300"
    unfolding h5 .
  from h1 h2 h3 a1 a3 a4 a2 h5 b u1 u2 u4 u3 v1 v2 v4 v3 show ?thesis by (intro conjI)
qed

text \<open>
  C4. With the DoubleTrouble card a human's attempt to bank before the second fill ought to be
  refused. The program refuses it at the first prompt of a roll only (the pass goes round the
  loop again); at the prompt that follows a pick it banks: after rolling 1 2 3 4 6 6 the
  answers \<open>k\<close> and \<open>b\<close> bank 100 points with no fill at all.
\<close>

theorem double_trouble_bank_after_pick_is_accepted:
  "summary (play_turn 1 (scripted []) True (table DoubleTrouble [1, 2, 3, 4, 6, 6]) human [''k'', ''b''])
     = Some (Inr 100, 100, 100, 0, 5)
   \<and> result_of (turn_iter (scripted []) True
        (start_turn (table DoubleTrouble [1, 2, 3, 4, 6, 6]) human [''b''] (special_state_of DoubleTrouble)))
     = None"
  by code_simp




text \<open>
  C6. A pass of an AI player whose roll scores takes all the scoring dice (their number is the
  one the specification's rule gives), and the player banks as soon as the points of the turn
  reach the threshold; when it banks in a turn with a bonus card and at least one fill, the
  player's points grow by the points of the turn plus the bonus once more. A turn of an AI
  player always ends: it takes no more passes than the threshold has points, plus one.
\<close>

theorem ai_takes_all_scoring_dice_and_banks_at_threshold:
  assumes "is_ai (player s)"
  shows "(fst (score_dice (rolled ops s)) \<noteq> 0 \<longrightarrow>
            ai_pass s (fst (score_dice (rolled ops s))) (spec_used_count (rolled ops s)) (turn_iter ops i s))
       \<and> (0 \<le> bonus (special s) \<longrightarrow>
            (\<exists>res. turn_loop (Suc (nat (ai_threshold_points (game s) - turn_points s))) ops i s = Some res))"
proof -
  have "ai_pass s (fst (score_dice (rolled ops s))) (spec_used_count (rolled ops s)) (turn_iter ops i s)"
    if "fst (score_dice (rolled ops s)) \<noteq> 0"
    using ai_pass_turn_iter[OF assms that[unfolded rolled_def], of i]
    by (simp add: counter_total_score_dice rolled_def)
  moreover have "\<exists>res. turn_loop (Suc (nat (ai_threshold_points (game s) - turn_points s))) ops i s = Some res"
    if "0 \<le> bonus (special s)"
    using ai_turn_ends_within[OF assms that, of "nat (ai_threshold_points (game s) - turn_points s)" ops i]
    by simp
  ultimately show ?thesis by blast
qed

text \<open>
  C6, at a concrete turn: an AI with the card Bonus300 rolls 1 1 1 5 5 5, which is 1500 points
  on six dice and a fill; the turn has 1800 points and the player gets 2100.
\<close>

theorem ai_takes_all_scoring_dice_and_banks_at_threshold_witness:
  "is_ai (player (start_turn (table Bonus300 [1, 1, 1, 5, 5, 5]) robot [] (special_state_of Bonus300)))
   \<and> fst (score_dice (rolled (scripted [])
        (start_turn (table Bonus300 [1, 1, 1, 5, 5, 5]) robot [] (special_state_of Bonus300)))) = 1500
   \<and> spec_used_count (rolled (scripted [])
        (start_turn (table Bonus300 [1, 1, 1, 5, 5, 5]) robot [] (special_state_of Bonus300))) = 6
   \<and> ai_pass (start_turn (table Bonus300 [1, 1, 1, 5, 5, 5]) robot [] (special_state_of Bonus300)) 1500 6
        (turn_iter (scripted []) True
           (start_turn (table Bonus300 [1, 1, 1, 5, 5, 5]) robot [] (special_state_of Bonus300)))
   \<and> 0 \<le> bonus (special (start_turn (table Bonus300 [1, 1, 1, 5, 5, 5]) robot [] (special_state_of Bonus300)))
   \<and> (\<exists>res. turn_loop (Suc (nat (ai_threshold_points (game
          (start_turn (table Bonus300 [1, 1, 1, 5, 5, 5]) robot [] (special_state_of Bonus300)))
         - turn_points (start_turn (table Bonus300 [1, 1, 1, 5, 5, 5]) robot [] (special_state_of Bonus300)))))
        (scripted []) True
        (start_turn (table Bonus300 [1, 1, 1, 5, 5, 5]) robot [] (special_state_of Bonus300)) = Some res)
   \<and> summary (play_turn 1 (scripted []) True (table Bonus300 [1, 1, 1, 5, 5, 5]) robot [])
       = Some (Inr 1800, 1800, 2100, 1, 6)"
proof -
  let ?s = "start_turn (table Bonus300 [1, 1, 1, 5, 5, 5]) robot [] (special_state_of Bonus300)"
  have h1: "is_ai (player ?s)" by code_simp
  have h2: "fst (score_dice (rolled (scripted []) ?s)) = 1500" by code_simp
  have h3: "spec_used_count (rolled (scripted []) ?s) = 6" by code_simp
  have h4: "0 \<le> bonus (special ?s)" by code_simp
  have h5: "summary (play_turn 1 (scripted []) True (table Bonus300 [1, 1, 1, 5, 5, 5]) robot [])
       = Some (Inr 1800, 1800, 2100, 1, 6)" by code_simp
  note A = ai_takes_all_scoring_dice_and_banks_at_threshold[OF h1, of "scripted []" True]
  from A h2 have a: "ai_pass ?s 1500 6 (turn_iter (scripted []) True ?s)"
    unfolding h2 h3 by simp
  from A h4 have b: "\<exists>res. turn_loop (Suc (nat (ai_threshold_points (game ?s) - turn_points ?s)))
      (scripted []) True ?s = Some res" by blast
  show ?thesis using h1 h2 h3 a h4 b h5 by blast
qed

text \<open>
  C7. A rejected action ought to leave the turn as it is and ask again on the same roll. The
  program executes \<open>continue\<close> on the outer loop, which rolls the dice anew: after 1 2 3 4 6 6
  the choice of die 2 (which does not score) is refused, the generator has moved on, the next
  pass rolls 2 3 4 6 6 2 and the turn is a bust; a refused attempt to bank under DoubleTrouble
  does the same.
\<close>

theorem rejected_selection_rolls_again:
  "result_of (turn_iter (scripted []) True
      (start_turn (table Bonus300 [1, 2, 3, 4, 6, 6, 2, 3, 4, 6, 6, 2]) human [''c'', ''2'', ''y'']
         (special_state_of Bonus300))) = None
   \<and> rng (game (state_of (turn_iter (scripted []) True
      (start_turn (table Bonus300 [1, 2, 3, 4, 6, 6, 2, 3, 4, 6, 6, 2]) human [''c'', ''2'', ''y'']
         (special_state_of Bonus300))))) = [2, 3, 4, 6, 6, 2]
   \<and> rolled (scripted []) (state_of (turn_iter (scripted []) True
      (start_turn (table Bonus300 [1, 2, 3, 4, 6, 6, 2, 3, 4, 6, 6, 2]) human [''c'', ''2'', ''y'']
         (special_state_of Bonus300)))) = [2, 3, 4, 6, 6, 2]
   \<and> rolled (scripted [])
      (start_turn (table Bonus300 [1, 2, 3, 4, 6, 6, 2, 3, 4, 6, 6, 2]) human [''c'', ''2'', ''y'']
         (special_state_of Bonus300)) = [1, 2, 3, 4, 6, 6]
   \<and> summary (play_turn 2 (scripted []) True (table Bonus300 [1, 2, 3, 4, 6, 6, 2, 3, 4, 6, 6, 2]) human
        [''c'', ''2'', ''y''])
     = Some (Inr 0, 0, 0, 0, 6)
   \<and> summary (play_turn 2 (scripted []) True (table DoubleTrouble [1, 2, 3, 4, 6, 6, 2, 3, 4, 6, 6, 2]) human
        [''b'', ''y''])
     = Some (Inr 0, 0, 0, 0, 6)"
  by code_simp

text \<open>
  C10. The number of dice left ought to stay between 0 and 6. The program checks that the
  chosen indices are in range and are scoring positions, not that they are distinct: on
  1 2 3 4 6 6 the answer \<open>1 1 1 1 1 1 1\<close> counts the one 1 seven times, for 1400 points and
  seven dice out of six, and leaves \<open>dice_left = -1\<close>.
\<close>

theorem repeated_index_drives_dice_left_negative:
  "choose_indices [1, 2, 3, 4, 6, 6] ''1 1 1 1 1 1 1'' = Some (1400, 7)
   \<and> summary (play_turn 1 (scripted []) True (table Bonus300 [1, 2, 3, 4, 6, 6]) human
        [''c'', ''1 1 1 1 1 1 1'', ''b''])
     = Some (Inr 1400, 1400, 1400, 0, - 1)
   \<and> dice_left (state_of (turn_iter (scripted []) True
        (start_turn (table Bonus300 [1, 2, 3, 4, 6, 6]) human [''c'', ''1 1 1 1 1 1 1'', ''r'']
           (special_state_of Bonus300)))) = - 1"
  by code_simp


section \<open>The claims about the deck and the match\<close>

text \<open>
  C8. Let the shuffle of a new deck be a permutation of the twenty cards. Then \<open>k\<close> calls of
  \<open>draw\<close> on a deck made from a seed all succeed, for every \<open>k\<close>, and the cards they return are
  the shuffled deck of that seed read from its end, again and again: call \<open>j\<close> returns the card
  at position \<open>j mod 20\<close>, so the sequence depends on the seed alone and repeats after the
  twentieth draw. A single draw from a deck of that seed succeeds whatever cards it holds.
\<close>

theorem draw_always_succeeds_and_repeats:
  assumes "mset (cards (CardDeckSpecial_init ops sd)) = mset full_deck"
  shows "fst (draw_many ops k (CardDeckSpecial_init ops sd))
           = Inr (map (\<lambda>j. rev (cards (CardDeckSpecial_init ops sd)) ! (j mod 20)) [0..<k])
       \<and> (seed d = sd \<longrightarrow> (\<exists>c. fst (draw ops d) = Inr c))"
proof -
  from assms have "size (mset (cards (CardDeckSpecial_init ops sd))) = size (mset full_deck)" by simp
  then have len: "length (cards (CardDeckSpecial_init ops sd)) = 20"
    by (simp add: length_full_deck)
  have "(CardDeckSpecial_init ops sd)\<lparr>cards := take (20 - 0) (cards (CardDeckSpecial_init ops sd))\<rparr>
      = CardDeckSpecial_init ops sd" using len by simp
  with draw_many_partly_dealt[OF len, of 0 k]
  have "fst (draw_many ops k (CardDeckSpecial_init ops sd))
           = Inr (map (\<lambda>j. rev (cards (CardDeckSpecial_init ops sd)) ! (j mod 20)) [0..<k])"
    by simp
  moreover have "\<exists>c. fst (draw ops d) = Inr c" if "seed d = sd"
    using draw_never_fails_general[of ops d] len that by simp
  ultimately show ?thesis by blast
qed

text \<open>
  C8, at a concrete deck: 22 draws from the deck of seed 7 give its twenty cards and then the
  first two of them again; a draw from an empty deck of seed 7 returns a card.
\<close>

theorem draw_always_succeeds_and_repeats_witness:
  "mset (cards (CardDeckSpecial_init (scripted [3]) 7)) = mset full_deck
   \<and> fst (draw_many (scripted [3]) 22 (CardDeckSpecial_init (scripted [3]) 7))
       = Inr (map (\<lambda>j. rev (cards (CardDeckSpecial_init (scripted [3]) 7)) ! (j mod 20)) [0..<22])
   \<and> fst (draw_many (scripted [3]) 22 (CardDeckSpecial_init (scripted [3]) 7))
       = Inr [Bonus300, Bonus300, Bonus300, DoubleTrouble, DoubleTrouble, MustBust, MustBust, MustBust,
              NoDice, NoDice, NoDice, Bonus500, Bonus500, Bonus400, Bonus400, Bonus400, Bonus400,
              Bonus300, Bonus300, Bonus300,
              Bonus300, Bonus300]
   \<and> seed (card_deck (table Bonus300 [])) = 7
   \<and> (\<exists>c. fst (draw (scripted [3]) (card_deck (table Bonus300 []))) = Inr c)"
proof -
  have h1: "mset (cards (CardDeckSpecial_init (scripted [3]) 7)) = mset full_deck"
    by (rule mset_scripted_deck)
  have h2: "seed (card_deck (table Bonus300 [])) = 7" by code_simp
  have e: "fst (draw_many (scripted [3]) 22 (CardDeckSpecial_init (scripted [3]) 7))
       = Inr [Bonus300, Bonus300, Bonus300, DoubleTrouble, DoubleTrouble, MustBust, MustBust, MustBust,
              NoDice, NoDice, NoDice, Bonus500, Bonus500, Bonus400, Bonus400, Bonus400, Bonus400,
              Bonus300, Bonus300, Bonus300,
              Bonus300, Bonus300]" by code_simp
  note A = draw_always_succeeds_and_repeats[OF h1, of 22 "card_deck (table Bonus300 [])"]
  from A have a: "fst (draw_many (scripted [3]) 22 (CardDeckSpecial_init (scripted [3]) 7))
       = Inr (map (\<lambda>j. rev (cards (CardDeckSpecial_init (scripted [3]) 7)) ! (j mod 20)) [0..<22])"
    by blast
  from A h2 have b: "\<exists>c. fst (draw (scripted [3]) (card_deck (table Bonus300 []))) = Inr c"
    by blast
  from h1 a e h2 b show ?thesis by (intro conjI)
qed

text \<open>
  C9, as the program has it. The dice come from the generator of the game and the deck is
  shuffled by a generator of its own; both are made from the same seed, and each starts at the
  beginning of that seed's sequence. A match that is not interactive, or whose players are all
  AI, reads nothing from the console, so its result is determined by the generator, the
  players, the two thresholds and the seed. A turn changes the deck by one draw and by nothing
  else.
\<close>

theorem dice_and_deck_have_their_own_generators:
  "rng (Game_init ops ps w t sd) = rng_new ops sd
   \<and> card_deck (Game_init ops ps w t sd) = CardDeckSpecial_init ops sd
   \<and> deck_rng (CardDeckSpecial_init ops sd) = snd (rng_shuffle ops (rng_new ops sd) full_deck)
   \<and> cards (CardDeckSpecial_init ops sd) = fst (rng_shuffle ops (rng_new ops sd) full_deck)
   \<and> (\<not> i \<or> list_all is_ai ps \<longrightarrow>
        run fuel ops i (Game_init ops ps w t sd) x 0
          = unread_match x (run fuel ops i (Game_init ops ps w t sd) [] 0))
   \<and> (play_turn fuel ops i g p x \<noteq> None \<longrightarrow>
        deck_after (play_turn fuel ops i g p x) = Some (snd (draw ops (card_deck g))))"
proof -
  have "run fuel ops i (Game_init ops ps w t sd) x 0
          = unread_match x (run fuel ops i (Game_init ops ps w t sd) [] 0)"
    if "\<not> i \<or> list_all is_ai ps"
    by (rule run_inputs) (use that in \<open>simp add: Game_init_def\<close>)
  moreover have "deck_after (play_turn fuel ops i g p x) = Some (snd (draw ops (card_deck g)))"
    if "play_turn fuel ops i g p x \<noteq> None"
  proof -
    from that obtain r s where e: "play_turn fuel ops i g p x = Some (r, s)" by auto
    from play_turn_draws_once[OF e] show ?thesis by (simp add: deck_after_def e)
  qed
  ultimately show ?thesis
    by (simp add: Game_init_def CardDeckSpecial_init_def split_beta)
qed

text \<open>
  C9, at a concrete match: one AI player, seed 7, dice 1 1 1 5 5 5 and the card Bonus300; the
  player wins with 2100 points whatever the console holds.
\<close>

theorem dice_and_deck_have_their_own_generators_witness:
  "list_all is_ai [robot]
   \<and> run 2 (scripted [1, 1, 1, 5, 5, 5]) False (Game_init (scripted [1, 1, 1, 5, 5, 5]) [robot] 1000 500 7) [''b''] 0
       = unread_match [''b'']
           (run 2 (scripted [1, 1, 1, 5, 5, 5]) False (Game_init (scripted [1, 1, 1, 5, 5, 5]) [robot] 1000 500 7) [] 0)
   \<and> winner (run 2 (scripted [1, 1, 1, 5, 5, 5]) False (Game_init (scripted [1, 1, 1, 5, 5, 5]) [robot] 1000 500 7) [] 0)
       = Some (Inr \<lparr> name = ''P2'', is_ai = True, points = 2100 \<rparr>)
   \<and> play_turn 2 (scripted [1, 1, 1, 5, 5, 5]) False (table Bonus300 [1, 1, 1, 5, 5, 5]) robot [''b''] \<noteq> None
   \<and> deck_after (play_turn 2 (scripted [1, 1, 1, 5, 5, 5]) False (table Bonus300 [1, 1, 1, 5, 5, 5]) robot [''b''])
       = Some (snd (draw (scripted [1, 1, 1, 5, 5, 5]) (card_deck (table Bonus300 [1, 1, 1, 5, 5, 5]))))"
proof -
  have h1: "list_all is_ai [robot]" by code_simp
  have h2: "play_turn 2 (scripted [1, 1, 1, 5, 5, 5]) False (table Bonus300 [1, 1, 1, 5, 5, 5]) robot [''b''] \<noteq> None"
    by code_simp
  have e: "winner (run 2 (scripted [1, 1, 1, 5, 5, 5]) False (Game_init (scripted [1, 1, 1, 5, 5, 5]) [robot] 1000 500 7) [] 0)
       = Some (Inr \<lparr> name = ''P2'', is_ai = True, points = 2100 \<rparr>)" by code_simp
  note A = dice_and_deck_have_their_own_generators[of "scripted [1, 1, 1, 5, 5, 5]" "[robot]" 1000 500 7
      False 2 "[''b'']" "table Bonus300 [1, 1, 1, 5, 5, 5]" robot]
  from A h1 have a: "run 2 (scripted [1, 1, 1, 5, 5, 5]) False (Game_init (scripted [1, 1, 1, 5, 5, 5]) [robot] 1000 500 7) [''b''] 0
       = unread_match [''b'']
           (run 2 (scripted [1, 1, 1, 5, 5, 5]) False (Game_init (scripted [1, 1, 1, 5, 5, 5]) [robot] 1000 500 7) [] 0)"
    by blast
  from A h2 have b: "deck_after (play_turn 2 (scripted [1, 1, 1, 5, 5, 5]) False (table Bonus300 [1, 1, 1, 5, 5, 5]) robot [''b''])
       = Some (snd (draw (scripted [1, 1, 1, 5, 5, 5]) (card_deck (table Bonus300 [1, 1, 1, 5, 5, 5]))))"
    by blast
  from h1 a e h2 b show ?thesis by (intro conjI)
qed

text \<open>
  C9 as stated fails: the dice and the shuffle do not share one source. After the game is made
  the generator of the game and the generator of the deck are in different states; the shuffle
  has used the first value of the seed's sequence, and the first roll of the dice starts at
  that same first value.
\<close>

theorem single_shared_source_counterexample:
  "rng (Game_init (scripted [1, 1, 1, 5, 5, 5]) [robot] 1000 500 7)
     \<noteq> deck_rng (card_deck (Game_init (scripted [1, 1, 1, 5, 5, 5]) [robot] 1000 500 7))
   \<and> fst (roll (scripted [1, 1, 1, 5, 5, 5]) (rng (Game_init (scripted [1, 1, 1, 5, 5, 5]) [robot] 1000 500 7)) 6)
       = [1, 1, 1, 5, 5, 5]
   \<and> cards (card_deck (Game_init (scripted [1, 1, 1, 5, 5, 5]) [robot] 1000 500 7))
       = rotate 1 full_deck"
  by code_simp

end
